theory Spec2Isabelle
  imports Complex_Main "HOL-Library.Multiset" "HOL-Library.Monad_Syntax" "HOL-Library.AList"
begin

chapter \<open>The TACo performance runner: model\<close>

text \<open>
  A shallow embedding of the request scheduling and statistics core of the runner
  (\<^verbatim>\<open>src/runner.ts\<close>, with the interfaces of \<^verbatim>\<open>src/types.ts\<close>).
  Timestamps of \<^verbatim>\<open>Date.now()\<close> are integers (milliseconds) and counters are
  naturals, both far below \<open>2\<^sup>5\<^sup>3\<close> and so exact as JavaScript numbers; every
  other number is a double, and each arithmetic operation on doubles rounds its result
  (section \<open>Numbers\<close>).
\<close>

section \<open>Numbers\<close>

text \<open>
  A JavaScript number is an IEEE 754 binary64 value. A finite number is modelled by the
  real it denotes, and the result of every addition, subtraction, multiplication and
  division is rounded to 53 significant bits, to nearest, ties to even: \<open>fl\<close>, with
  \<open>rne\<close> the rounding of a real to an integer and \<open>binade x\<close> the exponent \<open>e\<close> with
  \<open>2\<^sup>e \<le> \<bar>x\<bar> < 2\<^sup>e\<^sup>+\<^sup>1\<close>. The exponent is not bounded in the model: overflow to
  \<^verbatim>\<open>Infinity\<close>, subnormal numbers, \<^verbatim>\<open>NaN\<close> and the negative zero are outside it.
  \<^verbatim>\<open>Math.floor\<close>, \<^verbatim>\<open>Math.ceil\<close>, \<^verbatim>\<open>Math.max\<close> and \<^verbatim>\<open>Math.min\<close> are exact,
  and \<^verbatim>\<open>Math.round\<close> rounds half up, as \<^const>\<open>round\<close> does.
\<close>

definition rne :: "real \<Rightarrow> int" where
  "rne y =
     (let f = \<lfloor>y\<rfloor>; d = y - of_int f
      in if d < 1 / 2 then f
         else if 1 / 2 < d then f + 1
         else if even f then f else f + 1)"

definition binade :: "real \<Rightarrow> int" where
  "binade x = \<lfloor>log 2 \<bar>x\<bar>\<rfloor>"

definition fl :: "real \<Rightarrow> real" where
  "fl x =
     (if x = 0 then 0
      else let u = 2 powi (binade x - 52) in u * of_int (rne (x / u)))"

text \<open>
  ECMAScript leaves the precision of \<^verbatim>\<open>Math.pow\<close> and \<^verbatim>\<open>Math.sqrt\<close> to the
  engine, so the two functions are parameters of the model. \<open>correctlyRounded\<close> is an
  engine that returns the double nearest to the exact square and square root.
\<close>

record Engine =
  Math_pow :: "real \<Rightarrow> real \<Rightarrow> real"
  Math_sqrt :: "real \<Rightarrow> real"

definition correctlyRounded :: Engine where
  "correctlyRounded =
     \<lparr>Math_pow = (\<lambda>x y. if y = 2 then fl (x * x) else fl (x powr y)),
      Math_sqrt = (\<lambda>x. fl (sqrt x))\<rparr>"

section \<open>Data model\<close>

text \<open>
  The interface \<^verbatim>\<open>RequestResult\<close>: the outcome of one signing attempt. Times are
  readings of \<^verbatim>\<open>Date.now()\<close>; an optional field is an \<open>option\<close>.
\<close>

record RequestResult =
  index :: nat
  startTime :: int
  endTime :: int
  duration :: int
  success :: bool
  error :: "string option"
  tacoSigningTimeMs :: "int option"

text \<open>
  The interface \<^verbatim>\<open>TimelineRequest\<close> (its fields carry the suffix \<open>_tl\<close> where a
  \<^verbatim>\<open>RequestResult\<close> has a field of the same name) and the type \<^verbatim>\<open>StopReason\<close>.
\<close>

record TimelineRequest =
  index_tl :: nat
  timestamp_tl :: int
  elapsedSec :: real
  duration_tl :: int
  tacoSigningTimeMs_tl :: "int option"
  success_tl :: bool
  error_tl :: "string option"
  inFlight :: nat

datatype StopReason = Duration | ConsecutiveFailures | Completed

section \<open>Statistics\<close>

text \<open>
  The interface \<^verbatim>\<open>Stats\<close>. The fields \<^verbatim>\<open>min\<close> and \<^verbatim>\<open>max\<close> are named
  \<open>minS\<close> and \<open>maxS\<close>, since \<open>min\<close> and \<open>max\<close> are constants of HOL.
\<close>

record Stats =
  minS :: real
  maxS :: real
  mean :: real
  p50 :: real
  p95 :: real
  p99 :: real
  stdDev :: real

text \<open>
  \<^verbatim>\<open>calculateStats\<close>. The closure \<^verbatim>\<open>percentile\<close> takes the sorted array as an
  argument here. The comparator \<^verbatim>\<open>(a, b) => a - b\<close> orders the numbers as reals,
  since rounding keeps the sign of a difference; \<^verbatim>\<open>reduce((a, b) => a + b, 0)\<close> is a
  left fold of rounded additions.
\<close>

definition percentile :: "real list \<Rightarrow> real \<Rightarrow> real" where
  "percentile sortedv p =
     (let index = \<lceil>fl (fl (p / 100) * real (length sortedv))\<rceil> - 1
      in sortedv ! nat (max 0 (min index (int (length sortedv) - 1))))"

definition calculateStats :: "Engine \<Rightarrow> real list \<Rightarrow> Stats" where
  "calculateStats engine vals =
     (if length vals = 0 then
        \<lparr>minS = 0, maxS = 0, mean = 0, p50 = 0, p95 = 0, p99 = 0, stdDev = 0\<rparr>
      else
        let sortedv = sort vals;
            sum = foldl (\<lambda>a b. fl (a + b)) 0 sortedv;
            mean = fl (sum / real (length sortedv));
            squaredDiffs = map (\<lambda>v. Math_pow engine (fl (v - mean)) 2) sortedv;
            avgSquaredDiff =
              fl (foldl (\<lambda>a b. fl (a + b)) 0 squaredDiffs / real (length sortedv));
            stdDev = Math_sqrt engine avgSquaredDiff
        in \<lparr>minS = sortedv ! 0,
            maxS = sortedv ! (length sortedv - 1),
            mean = of_int (round mean),
            p50 = percentile sortedv 50,
            p95 = percentile sortedv 95,
            p99 = percentile sortedv 99,
            stdDev = of_int (round stdDev)\<rparr>)"

text \<open>
  The specification's reference definition of the statistics, written from its words:
  nearest-rank percentiles, the arithmetic mean and the population standard deviation
  (dividing by \<open>N\<close>) of the input, both rounded to the nearest integer. \<open>rankOf\<close> is
  the index that \<^verbatim>\<open>percentile\<close> computes in doubles.
\<close>

definition nearestRank :: "nat \<Rightarrow> real \<Rightarrow> nat" where
  "nearestRank N p = nat (max 0 (min (\<lceil>p / 100 * real N\<rceil> - 1) (int N - 1)))"

definition computeStats :: "real list \<Rightarrow> Stats" where
  "computeStats xs =
     (if xs = [] then
        \<lparr>minS = 0, maxS = 0, mean = 0, p50 = 0, p95 = 0, p99 = 0, stdDev = 0\<rparr>
      else
        let N = length xs;
            asc = sort xs;
            mu = sum_list xs / real N;
            sigma = sqrt ((\<Sum>x\<leftarrow>xs. (x - mu)\<^sup>2) / real N)
        in \<lparr>minS = asc ! 0,
            maxS = last asc,
            mean = of_int (round mu),
            p50 = asc ! nearestRank N 50,
            p95 = asc ! nearestRank N 95,
            p99 = asc ! nearestRank N 99,
            stdDev = of_int (round sigma)\<rparr>)"

definition rankOf :: "nat \<Rightarrow> real \<Rightarrow> nat" where
  "rankOf N p = nat (max 0 (min (\<lceil>fl (fl (p / 100) * real N)\<rceil> - 1) (int N - 1)))"

section \<open>Request executor\<close>

text \<open>
  A thrown value is an \<^verbatim>\<open>Error\<close> with its message, or any other value, given by
  what \<^verbatim>\<open>String\<close> makes of it. \<open>errorMessage\<close> is the expression
  \<^verbatim>\<open>error instanceof Error ? error.message : String(error)\<close>.
\<close>

datatype thrown = Error string | Thrown string

fun errorMessage :: "thrown \<Rightarrow> string" where
  "errorMessage (Error m) = m"
| "errorMessage (Thrown s) = s"

text \<open>
  A promise, by how it settles: fulfilled or rejected so many milliseconds after it was
  created, or never. Synchronous code takes no time on this clock.
\<close>

datatype 'a promise = Fulfils nat 'a | Rejects nat thrown | Never

text \<open>
  The parts of a \<^verbatim>\<open>PreparedPayload\<close> the executor reads. The user operation and
  the condition context are opaque to the runner.
\<close>

record DiscordContext =
  timestamp :: string
  signature :: string
  payload :: string

datatype ConditionContext = ConditionContext "(string \<times> string) list"

record PreparedPayload =
  userOp :: string
  discordContext :: "DiscordContext option"
  signingContext :: "ConditionContext option"

text \<open>
  The ambient state the executor reads: whether the signing condition was pre-fetched
  (\<^verbatim>\<open>cachedCondition\<close>), the remote signing operation and the global
  \<^verbatim>\<open>REQUEST_TIMEOUT_SECONDS\<close>.
\<close>

record Signer =
  cachedCondition :: bool
  signUserOpWithTaco :: "string \<Rightarrow> ConditionContext option \<Rightarrow> unit promise"
  REQUEST_TIMEOUT_SECONDS :: nat

text \<open>The decimal digits of a natural number, as string concatenation prints it.\<close>

fun digits :: "nat \<Rightarrow> string" where
  "digits n =
     (if n < 10 then [''0123456789'' ! n] else digits (n div 10) @ [''0123456789'' ! (n mod 10)])"

definition buildSigningContext :: "Signer \<Rightarrow> DiscordContext \<Rightarrow> thrown + ConditionContext" where
  "buildSigningContext env dc =
     (if \<not> cachedCondition env then Inl (Error ''Signing condition not pre-fetched'')
      else Inr (ConditionContext
        [('':timestamp'', timestamp dc), ('':signature'', signature dc),
         ('':discordPayload'', payload dc)]))"

text \<open>
  \<^verbatim>\<open>withTimeout\<close> races the promise against a timer that rejects after
  \<open>timeoutMs\<close>. The promise wins when it settles strictly before the timer is due, or
  without waiting at all (its reaction is then queued ahead of every timer); when both
  are due in the same millisecond, the timer phase of the event loop runs first.
\<close>

definition settlesInTime :: "'a promise \<Rightarrow> nat \<Rightarrow> bool" where
  "settlesInTime p timeoutMs =
     (case p of
        Fulfils d _ \<Rightarrow> d = 0 \<or> d < timeoutMs
      | Rejects d _ \<Rightarrow> d = 0 \<or> d < timeoutMs
      | Never \<Rightarrow> False)"

definition withTimeout :: "'a promise \<Rightarrow> nat \<Rightarrow> string \<Rightarrow> 'a promise" where
  "withTimeout p timeoutMs errorMsg =
     (if settlesInTime p timeoutMs then p else Rejects timeoutMs (Error errorMsg))"

text \<open>
  \<^verbatim>\<open>executeSigningRequestInner\<close>: the whole body is inside \<^verbatim>\<open>try\<close>, so a
  throw of \<^verbatim>\<open>buildSigningContext\<close>, of the property read on a missing payload or
  of the signing operation becomes a failed result. \<^verbatim>\<open>tacoSigningTimeMs\<close> is
  assigned only after the signing operation returned.
\<close>

definition executeSigningRequestInner ::
  "Signer \<Rightarrow> PreparedPayload option \<Rightarrow> int \<Rightarrow> RequestResult promise" where
  "executeSigningRequestInner env prepared startT =
     (let failed = (\<lambda>d e.
            \<lparr>index = 0, startTime = startT, endTime = startT + int d,
             duration = (startT + int d) - startT, success = False,
             error = Some (''[taco-signing] '' @ errorMessage e),
             tacoSigningTimeMs = None\<rparr>)
      in case prepared of
        None \<Rightarrow> Fulfils 0 (failed 0
          (Error ''Cannot read properties of undefined (reading 'discordContext')''))
      | Some pp \<Rightarrow>
          (case (case discordContext pp of
                   Some dc \<Rightarrow> map_sum id Some (buildSigningContext env dc)
                 | None \<Rightarrow> Inr (signingContext pp)) of
             Inl e \<Rightarrow> Fulfils 0 (failed 0 e)
           | Inr ctx \<Rightarrow>
               (case signUserOpWithTaco env (userOp pp) ctx of
                  Fulfils d _ \<Rightarrow>
                    Fulfils d
                      \<lparr>index = 0, startTime = startT, endTime = startT + int d,
                       duration = (startT + int d) - startT, success = True,
                       error = None, tacoSigningTimeMs = Some (int d)\<rparr>
                | Rejects d e \<Rightarrow> Fulfils d (failed d e)
                | Never \<Rightarrow> Never)))"

text \<open>
  \<^verbatim>\<open>executeSigningRequest\<close>: a rejection of the race is caught and becomes a failed
  result tagged \<^verbatim>\<open>[timeout]\<close>.
\<close>

definition executeSigningRequest ::
  "Signer \<Rightarrow> PreparedPayload option \<Rightarrow> int \<Rightarrow> RequestResult promise" where
  "executeSigningRequest env prepared startT =
     (let timeoutMs = REQUEST_TIMEOUT_SECONDS env * 1000
      in case withTimeout (executeSigningRequestInner env prepared startT) timeoutMs
             (''Request timed out after '' @ digits (REQUEST_TIMEOUT_SECONDS env) @ ''s'') of
           Fulfils d r \<Rightarrow> Fulfils d r
         | Rejects d e \<Rightarrow>
             Fulfils d
               \<lparr>index = 0, startTime = startT, endTime = startT + int d,
                duration = (startT + int d) - startT, success = False,
                error = Some (''[timeout] '' @ errorMessage e),
                tacoSigningTimeMs = None\<rparr>
         | Never \<Rightarrow> Never)"

section \<open>Failure attributor\<close>

text \<open>
  The values of the \<^verbatim>\<open>nodeMap\<close> and the interface \<^verbatim>\<open>NodeFailure\<close>, which adds
  the address to the two counters.
\<close>

record NodeCounts =
  timeouts :: nat
  otherErrors :: nat

record NodeFailure = NodeCounts +
  address :: string

text \<open>
  Error messages are strings of 8-bit code units. \<open>isSpace\<close> is the class \<^verbatim>\<open>\s\<close> on
  them (tab, line feed, vertical tab, form feed, carriage return, space, no-break space);
  \<open>isHex\<close> is \<^verbatim>\<open>[a-fA-F0-9]\<close>.
\<close>

definition isSpace :: "char \<Rightarrow> bool" where
  "isSpace c = (of_char c \<in> {9, 10, 11, 12, 13, 32, 160 :: nat})"

definition isHex :: "char \<Rightarrow> bool" where
  "isHex c = (c \<in> set ''0123456789abcdefABCDEF'')"

text \<open>
  The pieces of the two regular expressions: a literal, and a greedy run \<^verbatim>\<open>c+\<close> of a
  character class. In both expressions the character after a run is outside the class of
  the run, so the greedy match is the only one and nothing backtracks.
\<close>

definition matchLiteral :: "string \<Rightarrow> string \<Rightarrow> string option" where
  "matchLiteral lit s = (if take (length lit) s = lit then Some (drop (length lit) s) else None)"

definition matchSome :: "(char \<Rightarrow> bool) \<Rightarrow> string \<Rightarrow> (string \<times> string) option" where
  "matchSome P s = (if takeWhile P s = [] then None else Some (takeWhile P s, dropWhile P s))"

text \<open>
  \<^verbatim>\<open>/Node\s+(0x[a-fA-F0-9]+)\s+did not respond before timeout/\<close> matched at the
  start of \<open>s\<close>: the captured address and the text after the match.
\<close>

definition matchTimeoutAt :: "string \<Rightarrow> (string \<times> string) option" where
  "matchTimeoutAt s =
     do {
       s1 \<leftarrow> matchLiteral ''Node'' s;
       (_, s2) \<leftarrow> matchSome isSpace s1;
       s3 \<leftarrow> matchLiteral ''0x'' s2;
       (hex, s4) \<leftarrow> matchSome isHex s3;
       (_, s5) \<leftarrow> matchSome isSpace s4;
       s6 \<leftarrow> matchLiteral ''did not respond before timeout'' s5;
       Some (''0x'' @ hex, s6)
     }"

text \<open>
  \<^verbatim>\<open>error.matchAll(...)\<close> with the flag \<^verbatim>\<open>g\<close>: the captures of all matches, left to
  right; after a match the search resumes behind it, otherwise one character further.
\<close>

function timeoutMatches :: "string \<Rightarrow> string list" where
  "timeoutMatches s =
     (if s = [] then []
      else case matchTimeoutAt s of
             Some (addr, rest) \<Rightarrow> addr # timeoutMatches rest
           | None \<Rightarrow> timeoutMatches (tl s))"
  by pat_completeness auto
termination
proof (relation "measure length")
  fix s :: string and x addr rest
  assume m: "matchTimeoutAt s = Some x" "(addr, rest) = x"
  have lit: "length b \<le> length a" if "matchLiteral l a = Some b" for l a b
    using that by (auto simp: matchLiteral_def split: if_splits)
  have run: "length b \<le> length a" if "matchSome P a = Some (h, b)" for P a h b
    using that by (auto simp: matchSome_def length_dropWhile_le split: if_splits)
  have first: "length b < length a" if "matchLiteral ''Node'' a = Some b" for a b
    using that by (cases a) (auto simp: matchLiteral_def split: if_splits)
  from m obtain s1 s2 s3 s4 s5 w1 w2 h where
    "matchLiteral ''Node'' s = Some s1" "matchSome isSpace s1 = Some (w1, s2)"
    "matchLiteral ''0x'' s2 = Some s3" "matchSome isHex s3 = Some (h, s4)"
    "matchSome isSpace s4 = Some (w2, s5)"
    "matchLiteral ''did not respond before timeout'' s5 = Some rest"
    by (auto simp: matchTimeoutAt_def bind_eq_Some_conv)
  then have "length rest < length s"
    using first [of s s1] run [of isSpace s1 w1 s2] lit [of "''0x''" s2 s3]
      run [of isHex s3 h s4] run [of isSpace s4 w2 s5]
      lit [of "''did not respond before timeout''" s5 rest]
    by linarith
  then show "(rest, s) \<in> measure length" by simp
qed auto

declare timeoutMatches.simps [simp del]

text \<open>
  \<^verbatim>\<open>error.match(/TACo signing failed with errors:\s*(\{[^}]+\})/)\<close>: the capture of
  the leftmost match.
\<close>

definition matchErrorsAt :: "string \<Rightarrow> string option" where
  "matchErrorsAt s =
     do {
       s1 \<leftarrow> matchLiteral ''TACo signing failed with errors:'' s;
       s2 \<leftarrow> matchLiteral ''{'' (dropWhile isSpace s1);
       (body, s3) \<leftarrow> matchSome (\<lambda>c. c \<noteq> CHR ''}'') s2;
       _ \<leftarrow> matchLiteral ''}'' s3;
       Some (''{'' @ body @ ''}'')
     }"

fun jsonMatch :: "string \<Rightarrow> string option" where
  "jsonMatch [] = None"
| "jsonMatch (c # cs) =
     (case matchErrorsAt (c # cs) of Some g \<Rightarrow> Some g | None \<Rightarrow> jsonMatch cs)"

text \<open>\<^verbatim>\<open>String.prototype.includes\<close>.\<close>

fun includes_str :: "string \<Rightarrow> string \<Rightarrow> bool" where
  "includes_str [] sub = (sub = [])"
| "includes_str (c # cs) sub = (take (length sub) (c # cs) = sub \<or> includes_str cs sub)"

text \<open>
  The \<^verbatim>\<open>nodeMap\<close> is a JavaScript \<^verbatim>\<open>Map\<close>, which iterates in insertion order:
  an association list, where \<^verbatim>\<open>set\<close> replaces the value of a key in place or appends
  a new key. \<open>attribute\<close> is the body shared by the two inner loops.
\<close>

definition attribute ::
  "string \<Rightarrow> bool \<Rightarrow> (string \<times> NodeCounts) list \<Rightarrow> (string \<times> NodeCounts) list" where
  "attribute addr isTimeout nodeMap =
     (let existing = (case map_of nodeMap addr of
                        Some c \<Rightarrow> c
                      | None \<Rightarrow> \<lparr>timeouts = 0, otherErrors = 0\<rparr>)
      in AList.update addr
           (if isTimeout then existing\<lparr>timeouts := timeouts existing + 1\<rparr>
            else existing\<lparr>otherErrors := otherErrors existing + 1\<rparr>)
           nodeMap)"

text \<open>
  The body of the loop over the messages. \<open>jsonEntries\<close> stands for
  \<^verbatim>\<open>Object.entries(JSON.parse(...))\<close> with every value passed through \<^verbatim>\<open>String\<close>;
  it is \<open>None\<close> where \<^verbatim>\<open>JSON.parse\<close> throws, which the empty \<^verbatim>\<open>catch\<close> swallows.
\<close>

definition processError ::
  "(string \<Rightarrow> (string \<times> string) list option) \<Rightarrow> (string \<times> NodeCounts) list \<Rightarrow> string
     \<Rightarrow> (string \<times> NodeCounts) list" where
  "processError jsonEntries nodeMap err =
     (let m1 = foldl (\<lambda>m addr. attribute addr True m) nodeMap (timeoutMatches err)
      in case jsonMatch err of
           None \<Rightarrow> m1
         | Some g \<Rightarrow>
             (case jsonEntries g of
                None \<Rightarrow> m1
              | Some entries \<Rightarrow>
                  foldl (\<lambda>m (addr, msg). attribute addr (includes_str msg ''timeout'') m)
                    m1 entries))"

text \<open>
  \<^verbatim>\<open>parseNodeFailures\<close>. \<^verbatim>\<open>Array.prototype.sort\<close> is stable and the comparator
  \<^verbatim>\<open>b.timeouts + b.otherErrors - (a.timeouts + a.otherErrors)\<close> orders by descending
  total: a stable sort on the negated total.
\<close>

definition totalFailures :: "NodeFailure \<Rightarrow> nat" where
  "totalFailures nf = timeouts nf + otherErrors nf"

definition parseNodeFailures ::
  "(string \<Rightarrow> (string \<times> string) list option) \<Rightarrow> string list \<Rightarrow> NodeFailure list" where
  "parseNodeFailures jsonEntries errors =
     sort_key (\<lambda>nf. - int (totalFailures nf))
       (map (\<lambda>(addr, counts).
              \<lparr>timeouts = timeouts counts, otherErrors = otherErrors counts, address = addr\<rparr>)
          (foldl (processError jsonEntries) [] errors))"

text \<open>
  For the statement of the order: the addresses a message is attributed to, in the order
  the loops meet them, and the position at which an address is first seen.
\<close>

definition attributed ::
  "(string \<Rightarrow> (string \<times> string) list option) \<Rightarrow> string \<Rightarrow> string list" where
  "attributed jsonEntries err =
     timeoutMatches err @
     (case jsonMatch err of
        None \<Rightarrow> []
      | Some g \<Rightarrow> (case jsonEntries g of None \<Rightarrow> [] | Some entries \<Rightarrow> map fst entries))"

definition firstSeen :: "string list \<Rightarrow> string \<Rightarrow> nat" where
  "firstSeen seen addr = length (takeWhile (\<lambda>a. a \<noteq> addr) seen)"

text \<open>The keys of a \<^verbatim>\<open>Map\<close> after a sequence of \<^verbatim>\<open>set\<close> calls.\<close>

definition addKeys :: "string list \<Rightarrow> string list \<Rightarrow> string list" where
  "addKeys ks as = foldl (\<lambda>ks a. if a \<in> set ks then ks else ks @ [a]) ks as"

section \<open>Run aggregator\<close>

text \<open>
  The interface \<^verbatim>\<open>RunResult\<close> with its parts. Fields whose names are taken already
  carry a suffix (\<open>success_req\<close>, \<open>count_err\<close>, \<open>duration_run\<close>, \<open>errors_run\<close>, \<open>timeline_run\<close>,
  \<open>stopReason_run\<close>, \<open>consecutiveFailuresAtStop_run\<close>).
\<close>

datatype Mode = Steady | Burst

record Requests =
  total :: nat
  success_req :: nat
  failed :: nat

record ErrorWithCount =
  message :: string
  count_err :: nat

record RunResult =
  mode :: Mode
  targetRate :: real
  duration_run :: real
  label :: "string option"
  requests :: Requests
  latency :: Stats
  successLatency :: "Stats option"
  failureLatency :: "Stats option"
  tacoSigningTime :: "Stats option"
  successTacoSigningTime :: "Stats option"
  failureTacoSigningTime :: "Stats option"
  nodeFailures :: "NodeFailure list"
  errors_run :: "ErrorWithCount list"
  timeline_run :: "TimelineRequest list option"
  stopReason_run :: "StopReason option"
  consecutiveFailuresAtStop_run :: "nat option"
  stoppedEarly :: "bool option"

text \<open>
  \<^verbatim>\<open>printResults\<close>, without its console output, on the engine \<open>engine\<close> and the
  parser \<open>jsonEntries\<close>. Reading \<^verbatim>\<open>endTime\<close> of the last
  element of an empty array throws a \<^verbatim>\<open>TypeError\<close>. \<open>statsOrNull\<close> is the pattern
  \<^verbatim>\<open>xs.length > 0 ? calculateStats(xs) : null\<close>; \<open>tacoTimesOf\<close> keeps the defined
  \<^verbatim>\<open>tacoSigningTimeMs\<close>. \<^verbatim>\<open>r.error || "Unknown error"\<close> also replaces the empty
  string. The error histogram is a \<^verbatim>\<open>Map\<close> in insertion order.
\<close>

definition statsOrNull :: "Engine \<Rightarrow> real list \<Rightarrow> Stats option" where
  "statsOrNull engine xs = (if 0 < length xs then Some (calculateStats engine xs) else None)"

definition tacoTimesOf :: "RequestResult list \<Rightarrow> real list" where
  "tacoTimesOf rs =
     map (\<lambda>r. real_of_int (the (tacoSigningTimeMs r)))
       (filter (\<lambda>r. tacoSigningTimeMs r \<noteq> None) rs)"

definition printResults ::
  "Engine \<Rightarrow> (string \<Rightarrow> (string \<times> string) list option) \<Rightarrow> RequestResult list \<Rightarrow> Mode
     \<Rightarrow> real \<Rightarrow> string option \<Rightarrow> thrown + RunResult" where
  "printResults engine jsonEntries rs md rt lbl =
     (if rs = [] then
        Inl (Error ''Cannot read properties of undefined (reading 'endTime')'')
      else
        let totalDuration =
              fl (real_of_int (endTime (rs ! (length rs - 1)) - startTime (rs ! 0)) / 1000);
            successResults = filter (\<lambda>r. success r) rs;
            failedResults = filter (\<lambda>r. \<not> success r) rs;
            latencyStats = calculateStats engine (map (\<lambda>r. real_of_int (duration r)) rs);
            successLatencyStats =
              statsOrNull engine (map (\<lambda>r. real_of_int (duration r)) successResults);
            failureLatencyStats =
              statsOrNull engine (map (\<lambda>r. real_of_int (duration r)) failedResults);
            tacoStats = statsOrNull engine (tacoTimesOf rs);
            successTacoStats = statsOrNull engine (tacoTimesOf successResults);
            failureTacoStats = statsOrNull engine (tacoTimesOf failedResults);
            allErrors =
              map (\<lambda>r. case error r of
                          Some e \<Rightarrow> if e = [] then ''Unknown error'' else e
                        | None \<Rightarrow> ''Unknown error'')
                failedResults;
            nodeFailuresNow = parseNodeFailures jsonEntries allErrors;
            errorCountMap =
              foldl (\<lambda>m err.
                  AList.update err ((case map_of m err of Some c \<Rightarrow> c | None \<Rightarrow> 0) + 1) m)
                [] allErrors;
            errorsWithCounts =
              map (\<lambda>(msg, c). \<lparr>message = msg, count_err = c\<rparr>) errorCountMap
        in Inr
          \<lparr>mode = md, targetRate = rt,
           duration_run = fl (real_of_int (round (fl (totalDuration * 10))) / 10),
           label = lbl,
           requests =
             \<lparr>total = length rs, success_req = length successResults,
              failed = length failedResults\<rparr>,
           latency = latencyStats,
           successLatency = successLatencyStats,
           failureLatency = failureLatencyStats,
           tacoSigningTime = tacoStats,
           successTacoSigningTime = successTacoStats,
           failureTacoSigningTime = failureTacoStats,
           nodeFailures = nodeFailuresNow,
           errors_run = errorsWithCounts,
           timeline_run = None, stopReason_run = None,
           consecutiveFailuresAtStop_run = None, stoppedEarly = None\<rparr>)"

section \<open>Steady-rate controller\<close>

text \<open>
  The interfaces \<^verbatim>\<open>SteadyModeOptions\<close> and \<^verbatim>\<open>SteadyModeResult\<close>. The counts
  \<^verbatim>\<open>requestCount\<close> and \<^verbatim>\<open>maxConsecutiveFailures\<close> are integers, as
  \<^verbatim>\<open>parseInt\<close> produces them; the option \<^verbatim>\<open>duration\<close> is \<open>duration_steady\<close>.
\<close>

record SteadyModeOptions =
  rate :: real
  duration_steady :: "real option"
  requestCount :: "int option"
  maxDuration :: "real option"
  maxConsecutiveFailures :: "int option"

record SteadyModeResult =
  results_res :: "RequestResult list"
  timeline_res :: "TimelineRequest list"
  stopReason_res :: StopReason
  consecutiveFailuresAtStop :: "nat option"

text \<open>
  The local variables of \<^verbatim>\<open>runSteadyMode\<close> as a state. The event loop is single
  threaded: the function runs until it awaits, and the completion callbacks of the
  requests run in between. A run is therefore a sequence of events, each either one
  iteration of the \<^verbatim>\<open>while\<close> loop (with its two readings of \<^verbatim>\<open>Date.now()\<close>),
  or the resolution of the promise of one dispatched request with the result of
  \<^verbatim>\<open>executeSigningRequest\<close>. The state records where the function stands
  (\<open>phase\<close>: in the loop, awaiting \<^verbatim>\<open>Promise.all\<close> of the listed requests, or
  returned), whether the loop sleeps, the keys of \<^verbatim>\<open>pendingRequests\<close> in insertion
  order, the values the request promises resolved to (\<open>settled\<close>), the calls of
  \<^verbatim>\<open>executeSigningRequest\<close> made (\<open>dispatched\<close>: request index and payload) and what
  the function returned. The arrays \<^verbatim>\<open>results\<close> and \<^verbatim>\<open>timeline\<close> stay live after
  the return: a request abandoned at a stop condition still runs its callback when it
  resolves.
\<close>

datatype Phase = Looping | Draining "nat list" | Returned

record 'p SteadyState =
  results :: "RequestResult list"
  timeline :: "TimelineRequest list"
  pendingRequests :: "nat list"
  settled :: "(nat \<times> RequestResult) list"
  dispatched :: "(nat \<times> 'p option) list"
  payloadIndex :: nat
  completedCount :: nat
  consecutiveFailures :: nat
  nextRequestIndex :: nat
  stopReason :: StopReason
  shouldStop :: bool
  sleeping :: bool
  phase :: Phase
  returned :: "SteadyModeResult option"

datatype event = Iterate int int | Resolve nat RequestResult

text \<open>
  \<^verbatim>\<open>preparedPayloads[payloadIndex % preparedPayloads.length]\<close>, which is
  \<^verbatim>\<open>undefined\<close> on an empty array.
\<close>

definition payloadAt :: "'p list \<Rightarrow> nat \<Rightarrow> 'p option" where
  "payloadAt preparedPayloads k =
     (if preparedPayloads = [] then None
      else Some (preparedPayloads ! (k mod length preparedPayloads)))"

text \<open>
  The sizing of the run. \<^verbatim>\<open>requestCount ?? ...\<close> falls back only when the count is
  absent; \<^verbatim>\<open>duration || 60\<close> also replaces a duration of zero. The product is a
  double, rounded before \<^verbatim>\<open>Math.floor\<close>.
\<close>

definition hasStopConditions :: "SteadyModeOptions \<Rightarrow> bool" where
  "hasStopConditions opts = (maxDuration opts \<noteq> None \<or> maxConsecutiveFailures opts \<noteq> None)"

definition totalRequests :: "SteadyModeOptions \<Rightarrow> int option" where
  "totalRequests opts =
     (if \<not> hasStopConditions opts then
        Some (case requestCount opts of
                Some n \<Rightarrow> n
              | None \<Rightarrow>
                  \<lfloor>fl ((case duration_steady opts of
                            Some d \<Rightarrow> if d = 0 then 60 else d
                          | None \<Rightarrow> 60) * rate opts)\<rfloor>)
      else None)"

text \<open>The constant \<^verbatim>\<open>intervalMs\<close>, for a rate other than zero.\<close>

definition intervalMs :: "SteadyModeOptions \<Rightarrow> real" where
  "intervalMs opts = fl (1000 / rate opts)"

definition initialState :: "'p SteadyState" where
  "initialState =
     \<lparr>results = [], timeline = [], pendingRequests = [], settled = [], dispatched = [],
      payloadIndex = 0, completedCount = 0, consecutiveFailures = 0, nextRequestIndex = 0,
      stopReason = Completed, shouldStop = False, sleeping = False, phase = Looping,
      returned = None\<rparr>"

text \<open>
  The closure \<^verbatim>\<open>processResult\<close> (without its display), returning its boolean and
  the new state.
\<close>

definition processResult ::
  "SteadyModeOptions \<Rightarrow> int \<Rightarrow> RequestResult \<Rightarrow> 'p SteadyState \<Rightarrow> bool \<times> 'p SteadyState" where
  "processResult opts testStartTime result s =
     (let s1 = s\<lparr>completedCount := completedCount s + 1,
                 results := results s @ [result],
                 consecutiveFailures :=
                   (if success result then 0 else consecutiveFailures s + 1)\<rparr>;
          elapsed = fl (real_of_int (endTime result - testStartTime) / 1000);
          inFlightNow = length (pendingRequests s1);
          s2 = s1\<lparr>timeline := timeline s1 @
                 [\<lparr>index_tl = index result, timestamp_tl = endTime result,
                   elapsedSec = elapsed, duration_tl = duration result,
                   tacoSigningTimeMs_tl = tacoSigningTimeMs result,
                   success_tl = success result, error_tl = error result,
                   inFlight = inFlightNow\<rparr>]\<rparr>
      in case maxConsecutiveFailures opts of
           Some m \<Rightarrow>
             if m \<le> int (consecutiveFailures s2)
             then (True, s2\<lparr>stopReason := ConsecutiveFailures\<rparr>)
             else (False, s2)
         | None \<Rightarrow> (False, s2))"

text \<open>
  The callback given to \<^verbatim>\<open>then\<close>: it sets the index of the result, deletes the
  request from \<^verbatim>\<open>pendingRequests\<close> and assigns \<^verbatim>\<open>shouldStop\<close>. The promise of
  the request resolves to the same result.
\<close>

definition onResolve ::
  "SteadyModeOptions \<Rightarrow> int \<Rightarrow> nat \<Rightarrow> RequestResult \<Rightarrow> 'p SteadyState \<Rightarrow> 'p SteadyState" where
  "onResolve opts testStartTime requestIndex raw s =
     (let result = raw\<lparr>index := requestIndex\<rparr>;
          s1 = s\<lparr>pendingRequests := removeAll requestIndex (pendingRequests s),
                 settled := settled s @ [(requestIndex, result)]\<rparr>;
          (stop, s2) = processResult opts testStartTime result s1
      in s2\<lparr>shouldStop := stop\<rparr>)"

text \<open>
  The code after the loop. With requests in flight and a stop reason other than
  \<^verbatim>\<open>completed\<close> the function returns at once; with requests in flight otherwise it
  awaits them all; \<open>finish\<close> is the \<^verbatim>\<open>return\<close>.
\<close>

definition finish :: "'p SteadyState \<Rightarrow> 'p SteadyState" where
  "finish s =
     s\<lparr>phase := Returned, sleeping := False,
       returned := Some
         \<lparr>results_res = results s, timeline_res = timeline s, stopReason_res = stopReason s,
          consecutiveFailuresAtStop =
            (if stopReason s = ConsecutiveFailures then Some (consecutiveFailures s)
             else None)\<rparr>\<rparr>"

definition afterLoop :: "'p SteadyState \<Rightarrow> 'p SteadyState" where
  "afterLoop s =
     (if pendingRequests s \<noteq> [] \<and> stopReason s \<noteq> Completed then finish s
      else if pendingRequests s \<noteq> []
        then s\<lparr>phase := Draining (pendingRequests s), sleeping := False\<rparr>
      else finish s)"

text \<open>
  The loop over \<^verbatim>\<open>remaining\<close> once \<^verbatim>\<open>Promise.all\<close> has resolved: a result is
  processed only if \<^verbatim>\<open>results\<close> holds none with its index.
\<close>

definition drainRemaining ::
  "SteadyModeOptions \<Rightarrow> int \<Rightarrow> nat list \<Rightarrow> 'p SteadyState \<Rightarrow> 'p SteadyState" where
  "drainRemaining opts testStartTime remaining s =
     foldl (\<lambda>s i.
        case map_of (settled s) i of
          None \<Rightarrow> s
        | Some result \<Rightarrow>
            if \<exists>r \<in> set (results s). index r = index result then s
            else snd (processResult opts testStartTime result s))
       s remaining"

text \<open>
  One pass through the \<^verbatim>\<open>while\<close> loop, from the test of \<^verbatim>\<open>shouldStop\<close> to the
  pacing sleep. The loop sleeps only when \<^verbatim>\<open>waitTime > 0\<close>. At a rate of zero the
  interval, and with it the wait, is \<^verbatim>\<open>Infinity\<close>: the loop sleeps.
\<close>

definition loopIteration ::
  "SteadyModeOptions \<Rightarrow> 'p list \<Rightarrow> int \<Rightarrow> int \<Rightarrow> int \<Rightarrow> 'p SteadyState \<Rightarrow> 'p SteadyState" where
  "loopIteration opts preparedPayloads testStartTime now1 now2 s =
     (if shouldStop s then afterLoop s
      else if (case maxDuration opts of
                 Some md \<Rightarrow> md \<le> fl (real_of_int (now1 - testStartTime) / 1000)
               | None \<Rightarrow> False)
        then afterLoop (s\<lparr>stopReason := Duration\<rparr>)
      else if (case totalRequests opts of
                 Some n \<Rightarrow> n \<le> int (nextRequestIndex s)
               | None \<Rightarrow> False)
        then afterLoop s
      else
        let prepared = payloadAt preparedPayloads (payloadIndex s);
            requestIndex = nextRequestIndex s;
            s1 = s\<lparr>payloadIndex := payloadIndex s + 1,
                   nextRequestIndex := nextRequestIndex s + 1,
                   dispatched := dispatched s @ [(requestIndex, prepared)],
                   pendingRequests :=
                     (if requestIndex \<in> set (pendingRequests s) then pendingRequests s
                      else pendingRequests s @ [requestIndex])\<rparr>;
            elapsed = real_of_int (now2 - testStartTime);
            expectedElapsed = fl (real (nextRequestIndex s1) * intervalMs opts);
            waitTime = max 0 (fl (expectedElapsed - elapsed))
        in s1\<lparr>sleeping := (if rate opts = 0 then True else 0 < waitTime)\<rparr>)"

text \<open>
  One event. A request resolves once, while it is pending; while the function is in its
  loop and not asleep no callback can run. When the last awaited request has resolved,
  the drain loop runs and the function returns.
\<close>

definition steadyStep ::
  "SteadyModeOptions \<Rightarrow> 'p list \<Rightarrow> int \<Rightarrow> 'p SteadyState \<Rightarrow> event \<Rightarrow> 'p SteadyState" where
  "steadyStep opts preparedPayloads testStartTime s ev =
     (case ev of
        Iterate now1 now2 \<Rightarrow>
          if phase s = Looping
          then loopIteration opts preparedPayloads testStartTime now1 now2 s
          else s
      | Resolve i raw \<Rightarrow>
          if i \<notin> set (pendingRequests s) \<or> (phase s = Looping \<and> \<not> sleeping s) then s
          else
            let s1 = onResolve opts testStartTime i raw s
            in case phase s1 of
                 Draining remaining \<Rightarrow>
                   if \<forall>j \<in> set remaining. j \<notin> set (pendingRequests s1)
                   then finish (drainRemaining opts testStartTime remaining s1)
                   else s1
               | _ \<Rightarrow> s1)"

definition runSteadyMode ::
  "SteadyModeOptions \<Rightarrow> 'p list \<Rightarrow> int \<Rightarrow> event list \<Rightarrow> 'p SteadyState" where
  "runSteadyMode opts preparedPayloads testStartTime events =
     foldl (steadyStep opts preparedPayloads testStartTime) initialState events"

subsection \<open>Invariants\<close>

text \<open>
  Invariants of the run, each kept by every event. \<open>steadyInv\<close>: the indices of the
  results are distinct, the timeline has them in the same order, a recorded index is no
  longer pending, every index in use is below \<^verbatim>\<open>nextRequestIndex\<close>, and every value a
  request promise resolved to is among the results.
\<close>

definition steadyInv :: "'p SteadyState \<Rightarrow> bool" where
  "steadyInv s \<longleftrightarrow>
     distinct (map index (results s))
     \<and> map index_tl (timeline s) = map index (results s)
     \<and> (\<forall>r \<in> set (results s).
           index r \<notin> set (pendingRequests s) \<and> index r < nextRequestIndex s)
     \<and> (\<forall>i \<in> set (pendingRequests s). i < nextRequestIndex s)
     \<and> (\<forall>p \<in> set (settled s). index (snd p) \<in> index ` set (results s))
     \<and> (\<forall>res. returned s = Some res \<longrightarrow>
           distinct (map index (results_res res))
           \<and> map index_tl (timeline_res res) = map index (results_res res))"

text \<open>
  A backend whose every request fails: every resolution in the schedule carries a failed
  result. \<open>failInv\<close> is what then holds of a run with the threshold \<open>m\<close> and no
  \<^verbatim>\<open>maxDuration\<close>.
\<close>

definition allFail :: "event list \<Rightarrow> bool" where
  "allFail events = list_all (\<lambda>ev. case ev of Resolve i r \<Rightarrow> \<not> success r | Iterate a b \<Rightarrow> True) events"

definition failInv :: "int \<Rightarrow> 'p SteadyState \<Rightarrow> bool" where
  "failInv m s \<longleftrightarrow>
     consecutiveFailures s = length (results s)
     \<and> (shouldStop s \<longleftrightarrow> m \<le> int (length (results s)))
     \<and> stopReason s = (if m \<le> int (length (results s)) then ConsecutiveFailures else Completed)
     \<and> (phase s = Looping \<or> phase s = Returned)
     \<and> (phase s = Looping \<longrightarrow> returned s = None)
     \<and> (phase s = Returned \<longrightarrow>
           (\<exists>res. returned s = Some res
              \<and> stopReason_res res = ConsecutiveFailures
              \<and> consecutiveFailuresAtStop res = Some (length (results_res res))
              \<and> m \<le> int (length (results_res res))))"

text \<open>
  \<open>boundedInv\<close>: a run without stop conditions, bounded by \<open>N\<close> requests.
  \<open>stopInv\<close>: a run with a stop condition. \<open>dispatchInv\<close>: the payload of every
  dispatched request.
\<close>

definition boundedInv :: "int \<Rightarrow> 'p SteadyState \<Rightarrow> bool" where
  "boundedInv N s \<longleftrightarrow>
     \<not> shouldStop s \<and> stopReason s = Completed
     \<and> length (dispatched s) = nextRequestIndex s
     \<and> int (nextRequestIndex s) \<le> max 0 N
     \<and> distinct (pendingRequests s)
     \<and> length (results s) + length (pendingRequests s) = nextRequestIndex s
     \<and> (phase s \<noteq> Looping \<longrightarrow> N \<le> int (nextRequestIndex s))
     \<and> (phase s = Looping \<longrightarrow> returned s = None)
     \<and> (\<forall>remaining. phase s = Draining remaining \<longrightarrow>
           returned s = None \<and> set (pendingRequests s) \<subseteq> set remaining
           \<and> pendingRequests s \<noteq> [])
     \<and> (phase s = Returned \<longrightarrow>
           pendingRequests s = []
           \<and> (\<exists>res. returned s = Some res \<and> stopReason_res res = Completed
                 \<and> results_res res = results s))"

definition stopInv :: "'p SteadyState \<Rightarrow> bool" where
  "stopInv s \<longleftrightarrow>
     (shouldStop s \<longrightarrow> stopReason s = ConsecutiveFailures)
     \<and> (\<forall>remaining. phase s \<noteq> Draining remaining)
     \<and> (\<forall>res. returned s = Some res \<longrightarrow> stopReason_res res \<noteq> Completed)"

definition dispatchInv :: "'p list \<Rightarrow> 'p SteadyState \<Rightarrow> bool" where
  "dispatchInv ps s \<longleftrightarrow>
     payloadIndex s = nextRequestIndex s
     \<and> dispatched s = map (\<lambda>k. (k, payloadAt ps k)) [0..<nextRequestIndex s]"

section \<open>Burst controller\<close>

text \<open>
  Promise combinators: \<^verbatim>\<open>then\<close> with a function that does not throw, and
  \<^verbatim>\<open>Promise.all\<close>, which rejects with the earliest rejection, stays pending while a
  promise never settles, and otherwise fulfils with all values, in order, when the last
  promise has.
\<close>

fun thenMap :: "('a \<Rightarrow> 'b) \<Rightarrow> 'a promise \<Rightarrow> 'b promise" where
  "thenMap f (Fulfils d v) = Fulfils d (f v)"
| "thenMap f (Rejects d e) = Rejects d e"
| "thenMap f Never = Never"

fun firstRejection :: "'a promise list \<Rightarrow> (nat \<times> thrown) option" where
  "firstRejection [] = None"
| "firstRejection (Rejects d e # ps) =
     (case firstRejection ps of
        Some (d', e') \<Rightarrow> if d' < d then Some (d', e') else Some (d, e)
      | None \<Rightarrow> Some (d, e))"
| "firstRejection (p # ps) = firstRejection ps"

fun fulfilments :: "'a promise list \<Rightarrow> (nat \<times> 'a) list option" where
  "fulfilments [] = Some []"
| "fulfilments (Fulfils d v # ps) = map_option ((#) (d, v)) (fulfilments ps)"
| "fulfilments (p # ps) = None"

definition promiseAll :: "'a promise list \<Rightarrow> 'a list promise" where
  "promiseAll ps =
     (case firstRejection ps of
        Some (d, e) \<Rightarrow> Rejects d e
      | None \<Rightarrow>
          (case fulfilments ps of
             None \<Rightarrow> Never
           | Some dvs \<Rightarrow> Fulfils (foldl max 0 (map fst dvs)) (map snd dvs)))"

text \<open>
  The local variables of \<^verbatim>\<open>runBurstMode\<close>, with the clock (the batch loop only
  waits in \<^verbatim>\<open>await Promise.all\<close>) and the calls of \<^verbatim>\<open>executeSigningRequest\<close> made:
  request index, payload and time of the call. Fields that a steady run has too carry the
  suffix \<open>_b\<close>.
\<close>

record 'p BurstState =
  results_b :: "RequestResult list"
  payloadIndex_b :: nat
  requestIndex :: nat
  clock :: int
  calls :: "(nat \<times> 'p option \<times> int) list"

text \<open>
  The body of the inner loop: \<open>exec k p t\<close> is the promise returned by the call of
  \<^verbatim>\<open>executeSigningRequest\<close> for request \<open>k\<close> with payload \<open>p\<close> at time \<open>t\<close>.
\<close>

definition dispatchOne ::
  "(nat \<Rightarrow> 'p option \<Rightarrow> int \<Rightarrow> RequestResult promise) \<Rightarrow> 'p list
     \<Rightarrow> 'p BurstState \<times> RequestResult promise list
     \<Rightarrow> 'p BurstState \<times> RequestResult promise list" where
  "dispatchOne exec preparedPayloads sb =
     (let s = fst sb; batchPromises = snd sb;
          prepared = payloadAt preparedPayloads (payloadIndex_b s);
          idx = requestIndex s
      in (s\<lparr>payloadIndex_b := payloadIndex_b s + 1, requestIndex := requestIndex s + 1,
            calls := calls s @ [(idx, prepared, clock s)]\<rparr>,
          batchPromises @ [thenMap (\<lambda>r. r\<lparr>index := idx\<rparr>) (exec idx prepared (clock s))]))"

text \<open>
  One batch: \<^verbatim>\<open>currentBatchSize\<close> dispatches, then \<^verbatim>\<open>await Promise.all\<close>. A
  rejection leaves the function as an exception; a promise that never settles leaves it
  suspended (\<open>None\<close>).
\<close>

definition runBatch ::
  "(nat \<Rightarrow> 'p option \<Rightarrow> int \<Rightarrow> RequestResult promise) \<Rightarrow> 'p list \<Rightarrow> nat \<Rightarrow> nat
     \<Rightarrow> 'p BurstState \<Rightarrow> (thrown + 'p BurstState) option" where
  "runBatch exec preparedPayloads burstSize totalReq s =
     (let currentBatchSize = nat (min (int burstSize) (int totalReq - int (requestIndex s)));
          sb = ((dispatchOne exec preparedPayloads) ^^ currentBatchSize) (s, [])
      in case promiseAll (snd sb) of
           Never \<Rightarrow> None
         | Rejects d e \<Rightarrow> Some (Inl e)
         | Fulfils d batchResults \<Rightarrow>
             Some (Inr ((fst sb)\<lparr>results_b := results_b (fst sb) @ batchResults,
                                clock := clock (fst sb) + int d\<rparr>)))"

text \<open>The loop over the batches, and \<^verbatim>\<open>runBurstMode\<close> (its final state).\<close>

fun runBatches ::
  "(nat \<Rightarrow> 'p option \<Rightarrow> int \<Rightarrow> RequestResult promise) \<Rightarrow> 'p list \<Rightarrow> nat \<Rightarrow> nat
     \<Rightarrow> nat \<Rightarrow> 'p BurstState \<Rightarrow> (thrown + 'p BurstState) option" where
  "runBatches exec preparedPayloads burstSize totalReq 0 s = Some (Inr s)"
| "runBatches exec preparedPayloads burstSize totalReq (Suc batchesLeft) s =
     (case runBatch exec preparedPayloads burstSize totalReq s of
        None \<Rightarrow> None
      | Some (Inl e) \<Rightarrow> Some (Inl e)
      | Some (Inr s') \<Rightarrow> runBatches exec preparedPayloads burstSize totalReq batchesLeft s')"

definition runBurstMode ::
  "(nat \<Rightarrow> 'p option \<Rightarrow> int \<Rightarrow> RequestResult promise) \<Rightarrow> 'p list \<Rightarrow> nat \<Rightarrow> nat \<Rightarrow> int
     \<Rightarrow> (thrown + 'p BurstState) option" where
  "runBurstMode exec preparedPayloads burstSize totalBatches startT =
     runBatches exec preparedPayloads burstSize (totalBatches * burstSize) totalBatches
       \<lparr>results_b = [], payloadIndex_b = 0, requestIndex = 0, clock = startT, calls = []\<rparr>"

subsection \<open>Invariant\<close>

text \<open>
  An executor is \<open>timely\<close> when every call resolves, to a result that starts at the
  call and ends when the promise is fulfilled. \<open>burstInv\<close> holds after \<open>k\<close> batches of
  size \<open>B\<close>.
\<close>

definition fulfilled :: "'a promise \<Rightarrow> bool" where
  "fulfilled p = (case p of Fulfils d v \<Rightarrow> True | _ \<Rightarrow> False)"

definition delayOf :: "'a promise \<Rightarrow> nat" where
  "delayOf p = (case p of Fulfils d v \<Rightarrow> d | _ \<Rightarrow> 0)"

definition valueOf :: "'a promise \<Rightarrow> 'a" where
  "valueOf p = (case p of Fulfils d v \<Rightarrow> v)"

definition timely :: "(nat \<Rightarrow> 'p option \<Rightarrow> int \<Rightarrow> RequestResult promise) \<Rightarrow> bool" where
  "timely exec \<longleftrightarrow>
     (\<forall>k p t. \<exists>d r. exec k p t = Fulfils d r \<and> startTime r = t \<and> endTime r = t + int d)"

definition batchCalls :: "'p list \<Rightarrow> 'p BurstState \<Rightarrow> nat \<Rightarrow> (nat \<times> 'p option \<times> int) list" where
  "batchCalls ps s n =
     map (\<lambda>i. (requestIndex s + i, payloadAt ps (payloadIndex_b s + i), clock s)) [0..<n]"

definition batchPromisesOf ::
  "(nat \<Rightarrow> 'p option \<Rightarrow> int \<Rightarrow> RequestResult promise) \<Rightarrow> 'p list \<Rightarrow> 'p BurstState \<Rightarrow> nat
     \<Rightarrow> RequestResult promise list" where
  "batchPromisesOf exec ps s n =
     map (\<lambda>i. thenMap (\<lambda>r. r\<lparr>index := requestIndex s + i\<rparr>)
               (exec (requestIndex s + i) (payloadAt ps (payloadIndex_b s + i)) (clock s)))
       [0..<n]"

definition burstInv :: "'p list \<Rightarrow> nat \<Rightarrow> nat \<Rightarrow> 'p BurstState \<Rightarrow> bool" where
  "burstInv ps B k s \<longleftrightarrow>
     requestIndex s = k * B \<and> payloadIndex_b s = k * B
     \<and> map index (results_b s) = [0..<k * B]
     \<and> (\<forall>r \<in> set (results_b s). endTime r \<le> clock s)
     \<and> (\<forall>i < k * B. \<forall>j < k * B. i div B < j div B \<longrightarrow>
           endTime (results_b s ! i) \<le> startTime (results_b s ! j))
     \<and> calls s = map (\<lambda>i. (i, payloadAt ps i, startTime (results_b s ! i))) [0..<k * B]"

section \<open>Main: summaries of the steady runs\<close>

text \<open>
  The loop of \<^verbatim>\<open>main\<close> over the steady rates of a sweep, given for each level the
  rate and what \<^verbatim>\<open>runSteadyMode\<close> returned for it. \<^verbatim>\<open>slice(-10)\<close> keeps the last
  ten results, or all when there are fewer. An exception of \<^verbatim>\<open>printResults\<close> leaves
  the loop (and ends the process).
\<close>

fun sweepSteady ::
  "Engine \<Rightarrow> (string \<Rightarrow> (string \<times> string) list option) \<Rightarrow> (real \<times> SteadyModeResult) list
     \<Rightarrow> RunResult list \<Rightarrow> thrown + RunResult list" where
  "sweepSteady engine jsonEntries [] steadyResults = Inr steadyResults"
| "sweepSteady engine jsonEntries ((testRate, steadyResult) # levels) steadyResults =
     (case printResults engine jsonEntries (results_res steadyResult) Steady testRate None of
        Inl e \<Rightarrow> Inl e
      | Inr runResult \<Rightarrow>
          let last10 = drop (length (results_res steadyResult) - 10) (results_res steadyResult);
              marked = (if 10 \<le> length last10 \<and> list_all (\<lambda>r. \<not> success r) last10
                        then runResult\<lparr>stoppedEarly := Some True\<rparr>
                        else runResult)
          in sweepSteady engine jsonEntries levels (steadyResults @ [marked]))"

text \<open>
  The steady branch of \<^verbatim>\<open>main\<close>: the summary of a single run, with the timeline and
  the stop reason attached.
\<close>

definition steadySummary ::
  "Engine \<Rightarrow> (string \<Rightarrow> (string \<times> string) list option) \<Rightarrow> real \<Rightarrow> SteadyModeResult
     \<Rightarrow> thrown + RunResult" where
  "steadySummary engine jsonEntries rt steadyResult =
     (case printResults engine jsonEntries (results_res steadyResult) Steady rt None of
        Inl e \<Rightarrow> Inl e
      | Inr runResult \<Rightarrow>
          Inr (runResult\<lparr>timeline_run := Some (timeline_res steadyResult),
                 stopReason_run := Some (stopReason_res steadyResult),
                 consecutiveFailuresAtStop_run := consecutiveFailuresAtStop steadyResult\<rparr>))"

text \<open>The condition under which the sweep marks a run.\<close>

definition degraded :: "RequestResult list \<Rightarrow> bool" where
  "degraded rs \<longleftrightarrow>
     10 \<le> length rs \<and> list_all (\<lambda>r. \<not> success r) (drop (length rs - 10) rs)"

section \<open>Scenarios\<close>

text \<open>
  Concrete runs, for the theorems that evaluate the model: a failed and a successful
  result of \<^verbatim>\<open>executeSigningRequest\<close> (started at \<open>t0\<close>, finished at \<open>t1\<close>),
  options and schedules.
\<close>

definition failedAt :: "int \<Rightarrow> int \<Rightarrow> RequestResult" where
  "failedAt t0 t1 =
     \<lparr>index = 0, startTime = t0, endTime = t1, duration = t1 - t0, success = False,
      error = Some ''[taco-signing] unavailable'', tacoSigningTimeMs = None\<rparr>"

definition okAt :: "int \<Rightarrow> int \<Rightarrow> RequestResult" where
  "okAt t0 t1 =
     \<lparr>index = 0, startTime = t0, endTime = t1, duration = t1 - t0, success = True,
      error = None, tacoSigningTimeMs = Some (t1 - t0)\<rparr>"

text \<open>
  One request every two seconds, stopping at three consecutive failures. In
  \<open>pacedFailures\<close> every request fails before the next is sent; in \<open>burstOfFailures\<close>
  four requests are in flight when the backend fails them all within one pacing sleep.
\<close>

definition stopAfter3 :: SteadyModeOptions where
  "stopAfter3 =
     \<lparr>rate = 1 / 2, duration_steady = Some 60, requestCount = None, maxDuration = None,
      maxConsecutiveFailures = Some 3\<rparr>"

definition pacedFailures :: "event list" where
  "pacedFailures =
     [Iterate 0 0, Resolve 0 (failedAt 0 500),
      Iterate 2000 2000, Resolve 1 (failedAt 2000 2600),
      Iterate 4000 4000, Resolve 2 (failedAt 4000 4700),
      Iterate 6000 6000]"

definition burstOfFailures :: "event list" where
  "burstOfFailures =
     [Iterate 0 0, Iterate 2000 2000, Iterate 4000 4000, Iterate 6000 6000,
      Resolve 0 (failedAt 0 6500), Resolve 1 (failedAt 2000 6600),
      Resolve 2 (failedAt 4000 6700), Resolve 3 (failedAt 6000 6800),
      Iterate 8000 8000]"

text \<open>A run of exactly two requests, awaited after the loop.\<close>

definition twoRequests :: SteadyModeOptions where
  "twoRequests =
     \<lparr>rate = 1, duration_steady = Some 60, requestCount = Some 2, maxDuration = None,
      maxConsecutiveFailures = None\<rparr>"

definition twoRequestsRun :: "event list" where
  "twoRequestsRun =
     [Iterate 0 0, Iterate 1000 1000, Iterate 2000 2000,
      Resolve 1 (okAt 1000 2400), Resolve 0 (failedAt 0 2500)]"

text \<open>
  A duration of zero, at one request every 32 seconds (\<^verbatim>\<open>--rate=0.03125\<close>, a
  double).
\<close>

definition zeroDuration :: SteadyModeOptions where
  "zeroDuration =
     \<lparr>rate = 1 / 32, duration_steady = Some 0, requestCount = None, maxDuration = None,
      maxConsecutiveFailures = None\<rparr>"

definition zeroDurationRun :: "event list" where
  "zeroDurationRun = [Iterate 0 0, Resolve 0 (okAt 0 300), Iterate 32000 32000]"

text \<open>
  A run stopped at three consecutive failures (requests 0, 1 and 3) while request 2 is in
  flight; its result arrives after the function has returned.
\<close>

definition lateArrival :: "event list" where
  "lateArrival =
     [Iterate 0 0, Resolve 0 (failedAt 0 500),
      Iterate 2000 2000, Resolve 1 (failedAt 2000 2600),
      Iterate 4000 4000, Iterate 6000 6000, Resolve 3 (failedAt 6000 6700),
      Iterate 8000 8000, Resolve 2 (failedAt 4000 9000)]"

text \<open>
  A backend that signs for even requests and rejects odd ones, with latencies that differ
  from request to request; three payloads; steady runs of ten and of three results, all
  failed.
\<close>

definition flakySigner :: "nat \<Rightarrow> Signer" where
  "flakySigner k =
     \<lparr>cachedCondition = True,
      signUserOpWithTaco =
        (\<lambda>_ _. if even k then Fulfils (100 + 10 * k) ()
               else Rejects (300 - 10 * k) (Error ''denied'')),
      REQUEST_TIMEOUT_SECONDS = 120\<rparr>"

definition threePayloads :: "PreparedPayload list" where
  "threePayloads =
     [\<lparr>userOp = ''a'', discordContext = None, signingContext = None\<rparr>,
      \<lparr>userOp = ''b'', discordContext = None, signingContext = None\<rparr>,
      \<lparr>userOp = ''c'', discordContext = None, signingContext = None\<rparr>]"

definition tenFailures :: SteadyModeResult where
  "tenFailures =
     \<lparr>results_res = map (\<lambda>k. (failedAt (1000 * int k) (1000 * int k + 400))\<lparr>index := k\<rparr>) [0..<10],
      timeline_res = [], stopReason_res = Completed, consecutiveFailuresAtStop = None\<rparr>"

definition threeFailures :: SteadyModeResult where
  "threeFailures =
     \<lparr>results_res = map (\<lambda>k. (failedAt (1000 * int k) (1000 * int k + 400))\<lparr>index := k\<rparr>) [0..<3],
      timeline_res = [], stopReason_res = Completed, consecutiveFailuresAtStop = None\<rparr>"

definition twoLevels :: "(real \<times> SteadyModeResult) list" where
  "twoLevels = [(1 / 2, tenFailures), (1, threeFailures)]"

text \<open>
  Inputs of \<^verbatim>\<open>calculateStats\<close>: ten durations, eighteen short durations, and two
  of one millisecond with one of \<open>2\<^sup>5\<^sup>4\<close>.
\<close>

definition tenDurations :: "real list" where
  "tenDurations = [10, 20, 30, 40, 50, 60, 70, 80, 90, 100]"

definition hugeOutlier :: "real list" where
  "hugeOutlier = [1, 1, 18014398509481984]"

definition eighteenDurations :: "real list" where
  "eighteenDurations = [1, 1, 1, 1, 1, 2, 2, 2, 3, 3, 3, 3, 4, 4, 5, 5, 5, 5]"

chapter \<open>Verification\<close>

section \<open>Rounding to a double\<close>

lemma rne_of_int [simp]: "rne (of_int n) = n"
  by (simp add: rne_def)

lemma rne_cases:
  "rne y = \<lfloor>y\<rfloor> \<or> rne y = \<lfloor>y\<rfloor> + 1"
  by (auto simp: rne_def Let_def)

lemma rne_ge_floor: "\<lfloor>y\<rfloor> \<le> rne y"
  using rne_cases [of y] by auto

lemma rne_le_floor1: "rne y \<le> \<lfloor>y\<rfloor> + 1"
  using rne_cases [of y] by auto

lemma rne_mono:
  assumes "x \<le> y"
  shows "rne x \<le> rne y"
proof (cases "\<lfloor>x\<rfloor> = \<lfloor>y\<rfloor>")
  case True
  then have "x - of_int \<lfloor>x\<rfloor> \<le> y - of_int \<lfloor>y\<rfloor>"
    using assms by simp
  then show ?thesis
    using True by (auto simp: rne_def Let_def)
next
  case False
  then have "\<lfloor>x\<rfloor> < \<lfloor>y\<rfloor>"
    using assms floor_mono [of x y] by linarith
  then have "rne x \<le> \<lfloor>y\<rfloor>"
    using rne_le_floor1 [of x] by linarith
  then show ?thesis
    using rne_ge_floor [of y] by linarith
qed

lemma rne_error: "\<bar>of_int (rne y) - y\<bar> \<le> 1 / 2"
proof -
  have "of_int \<lfloor>y\<rfloor> \<le> y" "y < of_int \<lfloor>y\<rfloor> + 1"
    by linarith+
  then show ?thesis
    by (auto simp: rne_def Let_def abs_le_iff)
qed

lemma rne_minus: "rne (- y) = - rne y"
proof (cases "y \<in> \<int>")
  case True
  then obtain n where "y = of_int n" by (auto elim: Ints_cases)
  then show ?thesis
    by (simp flip: of_int_minus)
next
  case False
  have ne: "of_int \<lfloor>y\<rfloor> \<noteq> y"
    using False Ints_of_int by metis
  then have fl: "\<lfloor>- y\<rfloor> = - \<lfloor>y\<rfloor> - 1"
    by (auto simp: floor_minus ceiling_altdef)
  note ne
  moreover have "of_int \<lfloor>y\<rfloor> \<le> y" by linarith
  ultimately have "of_int \<lfloor>y\<rfloor> < y" by linarith
  then show ?thesis
    unfolding rne_def Let_def fl by (auto simp: field_simps)
qed

lemma binade_bounds:
  assumes "x \<noteq> 0"
  shows "2 powi binade x \<le> \<bar>x\<bar>" "\<bar>x\<bar> < 2 powi (binade x + 1)"
proof -
  have pos: "0 < \<bar>x\<bar>" using assms by simp
  have "2 powr real_of_int (binade x) \<le> \<bar>x\<bar> \<and> \<bar>x\<bar> < 2 powr (real_of_int (binade x) + 1)"
    using floor_log_eq_powr_iff [OF pos, of 2 "binade x"] by (simp add: binade_def)
  then have "2 powr real_of_int (binade x) \<le> \<bar>x\<bar>"
    "\<bar>x\<bar> < 2 powr real_of_int (binade x + 1)"
    by simp_all
  then show "2 powi binade x \<le> \<bar>x\<bar>" "\<bar>x\<bar> < 2 powi (binade x + 1)"
    by (simp_all only: powr_real_of_int' [of "2 :: real", simplified])
qed

lemma binade_eqI:
  assumes "2 powi e \<le> \<bar>x\<bar>" "\<bar>x\<bar> < 2 powi (e + 1)"
  shows "binade x = e"
proof -
  have "(0 :: real) < 2 powi e" by simp
  then have pos: "0 < \<bar>x\<bar>"
    using assms(1) by linarith
  have "2 powr real_of_int e \<le> \<bar>x\<bar> \<and> \<bar>x\<bar> < 2 powr (real_of_int e + 1)"
    using assms powr_real_of_int' [of "2 :: real" e] powr_real_of_int' [of "2 :: real" "e + 1"]
    by simp
  then show ?thesis
    using floor_log_eq_powr_iff [OF pos, of 2 e] by (simp add: binade_def)
qed

lemma fl_eval:
  assumes "2 powi e \<le> \<bar>x\<bar>" "\<bar>x\<bar> < 2 powi (e + 1)"
  shows "fl x = 2 powi (e - 52) * of_int (rne (x / 2 powi (e - 52)))"
proof -
  have "(0 :: real) < 2 powi e" by simp
  then have "x \<noteq> 0"
    using assms(1) by linarith
  then show ?thesis
    by (simp add: fl_def Let_def binade_eqI [OF assms])
qed

lemma fl_0 [simp]: "fl 0 = 0"
  by (simp add: fl_def)

lemma binade_minus [simp]: "binade (- x) = binade x"
  by (simp add: binade_def)

lemma fl_minus: "fl (- x) = - fl x"
  by (simp add: fl_def Let_def rne_minus flip: minus_divide_left)

lemma scaled_bounds:
  assumes "0 < x"
  shows "2 ^ 52 \<le> x / 2 powi (binade x - 52)" "x / 2 powi (binade x - 52) < 2 ^ 53"
proof -
  have x: "2 powi binade x \<le> x" "x < 2 powi (binade x + 1)"
    using binade_bounds [of x] assms by simp_all
  have u: "0 < (2 :: real) powi (binade x - 52)" by simp
  have a: "(2 :: real) powi binade x = 2 ^ 52 * 2 powi (binade x - 52)"
    using power_int_add [of "2 :: real" 52 "binade x - 52"] by simp
  have b: "(2 :: real) powi (binade x + 1) = 2 ^ 53 * 2 powi (binade x - 52)"
    using power_int_add [of "2 :: real" 53 "binade x - 52"] by (simp add: algebra_simps)
  show "2 ^ 52 \<le> x / 2 powi (binade x - 52)"
    using x(1) u unfolding a by (simp add: pos_le_divide_eq)
  show "x / 2 powi (binade x - 52) < 2 ^ 53"
    using x(2) u unfolding b by (simp add: pos_divide_less_eq)
qed

lemma fl_pos_bounds:
  assumes "0 < x"
  shows "2 powi binade x \<le> fl x" "fl x \<le> 2 powi (binade x + 1)"
proof -
  let ?u = "(2 :: real) powi (binade x - 52)"
  have u: "0 < ?u" by simp
  have "rne (2 ^ 52) \<le> rne (x / ?u)" "rne (x / ?u) \<le> rne (2 ^ 53)"
    using scaled_bounds [OF assms] by (auto intro!: rne_mono)
  moreover have "rne (2 ^ 52) = 2 ^ 52" "rne (2 ^ 53) = 2 ^ 53"
    using rne_of_int [of "2 ^ 52"] rne_of_int [of "2 ^ 53"] by simp_all
  ultimately have r: "(2 :: real) ^ 52 \<le> of_int (rne (x / ?u))" "of_int (rne (x / ?u)) \<le> (2 :: real) ^ 53"
    by (metis of_int_le_iff of_int_numeral of_int_power)+
  have f: "fl x = ?u * of_int (rne (x / ?u))"
    using assms by (simp add: fl_def Let_def)
  have a: "(2 :: real) powi binade x = ?u * 2 ^ 52"
    using power_int_add [of "2 :: real" "binade x - 52" 52] by simp
  have b: "(2 :: real) powi (binade x + 1) = ?u * 2 ^ 53"
    using power_int_add [of "2 :: real" "binade x - 52" 53] by (simp add: algebra_simps)
  show "2 powi binade x \<le> fl x"
    unfolding f a using r(1) u by (intro mult_left_mono) simp_all
  show "fl x \<le> 2 powi (binade x + 1)"
    unfolding f b using r(2) u by (intro mult_left_mono) simp_all
qed

lemma fl_pos:
  assumes "0 < x"
  shows "0 < fl x"
proof -
  have "(0 :: real) < 2 powi binade x" by simp
  then show ?thesis
    using fl_pos_bounds(1) [OF assms] by linarith
qed

lemma binade_mono:
  assumes "0 < x" "x \<le> y"
  shows "binade x \<le> binade y"
  unfolding binade_def using assms by (intro floor_mono) (simp add: log_le_cancel_iff)

lemma fl_mono_pos:
  assumes "0 < x" "x \<le> y"
  shows "fl x \<le> fl y"
proof (cases "binade x = binade y")
  case True
  let ?u = "(2 :: real) powi (binade x - 52)"
  have "x / ?u \<le> y / ?u"
    using assms(2) by (simp add: divide_right_mono)
  then have "rne (x / ?u) \<le> rne (y / ?u)" by (rule rne_mono)
  then have "?u * of_int (rne (x / ?u)) \<le> ?u * of_int (rne (y / ?u))"
    by (intro mult_left_mono) simp_all
  then show ?thesis
    using assms True by (simp add: fl_def Let_def)
next
  case False
  then have "binade x + 1 \<le> binade y"
    using binade_mono [OF assms] by linarith
  then have "(2 :: real) powi (binade x + 1) \<le> 2 powi binade y"
    by (intro power_int_increasing) simp_all
  moreover have "fl x \<le> 2 powi (binade x + 1)"
    using assms(1) by (rule fl_pos_bounds(2))
  moreover have "2 powi binade y \<le> fl y"
    using assms by (intro fl_pos_bounds(1)) simp
  ultimately show ?thesis by linarith
qed

lemma fl_mono:
  assumes "x \<le> y"
  shows "fl x \<le> fl y"
proof -
  consider "0 < x" | "x \<le> 0" "0 \<le> y" | "y < 0" using assms by linarith
  then show ?thesis
  proof cases
    case 1
    then show ?thesis using assms by (rule fl_mono_pos)
  next
    case 2
    have "fl x \<le> 0"
    proof (cases "x = 0")
      case True
      then show ?thesis by simp
    next
      case False
      then have "0 < fl (- x)" using 2(1) by (intro fl_pos) simp
      then show ?thesis by (simp add: fl_minus)
    qed
    moreover have "0 \<le> fl y"
    proof (cases "y = 0")
      case True
      then show ?thesis by simp
    next
      case False
      then have "0 < fl y" using 2(2) by (intro fl_pos) simp
      then show ?thesis by simp
    qed
    ultimately show ?thesis by linarith
  next
    case 3
    then have "fl (- y) \<le> fl (- x)"
      using assms by (intro fl_mono_pos) simp_all
    then show ?thesis by (simp add: fl_minus)
  qed
qed

lemma fl_exact:
  assumes "x \<noteq> 0" "x / 2 powi (binade x - 52) \<in> \<int>"
  shows "fl x = x"
proof -
  obtain n where n: "x / 2 powi (binade x - 52) = of_int n"
    using assms(2) by (auto elim: Ints_cases)
  have "fl x = 2 powi (binade x - 52) * (x / 2 powi (binade x - 52))"
    using assms(1) unfolding fl_def Let_def n by simp
  then show ?thesis by simp
qed

lemma fl_of_int:
  assumes "\<bar>n\<bar> \<le> 2 ^ 53"
  shows "fl (of_int n) = of_int n"
proof (cases "n = 0")
  case True
  then show ?thesis by simp
next
  case False
  let ?x = "real_of_int n"
  let ?e = "binade ?x"
  have x0: "?x \<noteq> 0" using False by simp
  have lo: "2 powi ?e \<le> \<bar>?x\<bar>" and hi: "\<bar>?x\<bar> < 2 powi (?e + 1)"
    using binade_bounds [OF x0] by simp_all
  have "\<bar>?x\<bar> \<le> 2 ^ 53"
    using assms by (metis of_int_abs of_int_le_iff of_int_numeral of_int_power)
  then have "(2 :: real) powi ?e \<le> 2 powi 53"
    using lo by simp
  then have e53: "?e \<le> 53"
    by (metis not_less power_int_strict_increasing one_less_numeral_iff semiring_norm(76) linorder_not_le)
  show ?thesis
  proof (cases "?e \<le> 52")
    case True
    have "?x / 2 powi (?e - 52) = ?x * 2 powi (52 - ?e)"
      using power_int_minus [of "2 :: real" "?e - 52"] by (simp add: field_simps)
    also have "\<dots> = ?x * 2 ^ nat (52 - ?e)"
      using True by (simp add: power_int_def)
    also have "\<dots> = of_int (n * 2 ^ nat (52 - ?e))" by simp
    finally have "?x / 2 powi (?e - 52) \<in> \<int>" by (metis Ints_of_int)
    then show ?thesis using x0 by (intro fl_exact) simp_all
  next
    case f: False
    then have e: "?e = 53" using e53 by linarith
    then have "\<bar>?x\<bar> = 2 ^ 53"
      using lo \<open>\<bar>?x\<bar> \<le> 2 ^ 53\<close> by simp
    then have "?x = 2 ^ 53 \<or> ?x = - (2 ^ 53)" by linarith
    then have "?x / 2 powi (?e - 52) = 2 ^ 52 \<or> ?x / 2 powi (?e - 52) = - (2 ^ 52)"
      unfolding e by auto
    then have "?x / 2 powi (?e - 52) \<in> \<int>" by auto
    then show ?thesis using x0 by (intro fl_exact) simp_all
  qed
qed

lemma binade_scale:
  assumes "x \<noteq> 0"
  shows "binade (x * 2 powi k) = binade x + k"
proof (rule binade_eqI)
  have p: "(2 :: real) powi (binade x + k) = 2 powi binade x * 2 powi k"
    "(2 :: real) powi (binade x + k + 1) = 2 powi (binade x + 1) * 2 powi k"
    using power_int_add [of "2 :: real" "binade x" k]
      power_int_add [of "2 :: real" "binade x + 1" k]
    by (simp_all add: algebra_simps)
  have k: "(0 :: real) < 2 powi k" by simp
  have a: "\<bar>x * 2 powi k\<bar> = \<bar>x\<bar> * 2 powi k"
    by (simp add: abs_mult)
  show "2 powi (binade x + k) \<le> \<bar>x * 2 powi k\<bar>"
    unfolding p a using binade_bounds(1) [OF assms] k by (intro mult_right_mono) simp_all
  show "\<bar>x * 2 powi k\<bar> < 2 powi (binade x + k + 1)"
    unfolding p a using binade_bounds(2) [OF assms] k by (intro mult_strict_right_mono) simp_all
qed

lemma fl_scale: "fl (x * 2 powi k) = fl x * 2 powi k"
proof (cases "x = 0")
  case True
  then show ?thesis by simp
next
  case False
  have u: "(2 :: real) powi (binade x + k - 52) = 2 powi (binade x - 52) * 2 powi k"
    using power_int_add [of "2 :: real" "binade x - 52" k] by (simp add: algebra_simps)
  have "x * 2 powi k / (2 powi (binade x - 52) * 2 powi k) = x / 2 powi (binade x - 52)"
    by simp
  then show ?thesis
    using False by (simp add: fl_def Let_def binade_scale u)
qed

lemma fl_dyadic:
  assumes "\<bar>a\<bar> \<le> 2 ^ 53"
  shows "fl (of_int a / 2 ^ n) = of_int a / 2 ^ n"
proof -
  have "real_of_int a / 2 ^ n = of_int a * 2 powi (- int n)"
    by (simp add: power_int_minus field_simps)
  then show ?thesis
    using fl_scale [of "of_int a" "- int n"] fl_of_int [OF assms] by simp
qed

lemma fl_numeral:
  "(numeral k :: int) \<le> 9007199254740992 \<Longrightarrow> fl (numeral k) = numeral k"
  using fl_of_int [of "numeral k"] by simp

lemma fl_neg_numeral:
  "(numeral k :: int) \<le> 9007199254740992 \<Longrightarrow> fl (- numeral k) = - numeral k"
  using fl_of_int [of "- numeral k"] by simp

lemma fl_1 [simp]: "fl 1 = 1"
  using fl_of_int [of 1] by simp

lemma fl_of_nat:
  assumes "n \<le> 2 ^ 53"
  shows "fl (real n) = real n"
proof -
  have "\<bar>int n\<bar> \<le> 2 ^ 53"
    using assms by (simp add: of_nat_le_iff [of n "2 ^ 53", where 'a = int, simplified])
  from fl_of_int [OF this] show ?thesis by simp
qed

lemma fl_sgn: "sgn (fl x) = sgn x"
proof -
  consider "0 < x" | "x = 0" | "x < 0" by linarith
  then show ?thesis
  proof cases
    case 1
    then show ?thesis using fl_pos [of x] by simp
  next
    case 2
    then show ?thesis by simp
  next
    case 3
    then have "0 < fl (- x)" by (intro fl_pos) simp
    then show ?thesis using 3 by (simp add: fl_minus)
  qed
qed

lemma fl_nonneg: "0 \<le> x \<Longrightarrow> 0 \<le> fl x"
  using fl_mono [of 0 x] by simp

lemma fl_95: "fl (95 / 100) = 8556839292003942 / 2 ^ 53"
proof -
  have "fl (95 / 100) = 2 powi (- 1 - 52) * of_int (rne (95 / 100 / 2 powi (- 1 - 52)))"
    by (rule fl_eval) (simp_all add: power_int_minus)
  also have "95 / 100 / 2 powi (- 1 - 52) = (42784196460019712 / 5 :: real)"
    by (simp add: power_int_minus)
  also have "rne (42784196460019712 / 5) = 8556839292003942"
    by (simp add: rne_def Let_def)
  finally show ?thesis by (simp add: power_int_minus)
qed

lemma fl_99: "fl (99 / 100) = 8917127262193582 / 2 ^ 53"
proof -
  have "fl (99 / 100) = 2 powi (- 1 - 52) * of_int (rne (99 / 100 / 2 powi (- 1 - 52)))"
    by (rule fl_eval) (simp_all add: power_int_minus)
  also have "99 / 100 / 2 powi (- 1 - 52) = (222928181554839552 / 25 :: real)"
    by (simp add: power_int_minus)
  also have "rne (222928181554839552 / 25) = 8917127262193582"
    by (simp add: rne_def Let_def)
  finally show ?thesis by (simp add: power_int_minus)
qed

lemma fl_50: "fl (50 / 100) = 1 / 2"
  using fl_dyadic [of 1 1] by simp

section \<open>Statistics\<close>

lemma percentile_rankOf: "percentile xs p = xs ! rankOf (length xs) p"
  by (simp add: percentile_def rankOf_def Let_def)

lemma rankOf_less: "0 < N \<Longrightarrow> rankOf N p < N"
  by (simp add: rankOf_def)

lemma rankOf_mono:
  assumes "p \<le> q"
  shows "rankOf N p \<le> rankOf N q"
proof -
  have "fl (p / 100) \<le> fl (q / 100)"
    using assms by (intro fl_mono) simp
  then have "fl (p / 100) * real N \<le> fl (q / 100) * real N"
    by (rule mult_right_mono) simp
  then have "\<lceil>fl (fl (p / 100) * real N)\<rceil> \<le> \<lceil>fl (fl (q / 100) * real N)\<rceil>"
    by (intro ceiling_mono fl_mono)
  then show ?thesis
    unfolding rankOf_def by (intro nat_mono) auto
qed

lemma sorted_rankOf:
  assumes "vs \<noteq> []" "p \<le> q"
  shows "sort vs ! rankOf (length vs) p \<le> sort vs ! rankOf (length vs) q"
proof -
  have "rankOf (length vs) q < length (sort vs)"
    using assms(1) by (simp add: rankOf_less)
  then show ?thesis
    using rankOf_mono [OF assms(2), of "length vs"]
    by (intro sorted_nth_mono) simp_all
qed

text \<open>The index computed in doubles is the nearest rank, for an array of fewer than
  \<open>2\<^sup>3\<^sup>2\<close> elements.\<close>

lemma ceiling_fl_scaled:
  fixes a b N :: nat and c :: real
  assumes c: "c \<le> real a / real b" "real a / real b - c \<le> 1 / 2 ^ 53" "0 \<le> c"
    and b: "0 < b" "b \<le> 100" "a \<le> b"
    and N: "N < 2 ^ 32"
  shows "\<lceil>fl (c * real N)\<rceil> = \<lceil>real a / real b * real N\<rceil>"
proof -
  let ?x = "real a / real b * real N"
  define T where "T = \<lceil>?x\<rceil>"
  have Nr: "real N < 2 ^ 32"
    using N by (metis of_nat_less_iff of_nat_numeral of_nat_power)
  have "real a * real N \<le> real b * real N"
    using b(3) by (intro mult_right_mono) simp_all
  then have x_le: "?x \<le> real N"
    using b(1) by (simp add: field_simps)
  have "0 \<le> ?x" by simp
  then have T0: "0 \<le> T" unfolding T_def by linarith
  have "T \<le> \<lceil>real N\<rceil>" unfolding T_def using x_le by (rule ceiling_mono)
  then have TN: "T \<le> int N" by simp
  have upper: "?x \<le> of_int T" unfolding T_def by linarith
  have "of_int T - 1 < ?x" unfolding T_def by linarith
  then have "(of_int T - 1) * real b < real a * real N"
    using b(1) by (simp add: field_simps)
  then have "real_of_int ((T - 1) * int b) < real_of_int (int a * int N)"
    by simp
  then have "(T - 1) * int b < int a * int N"
    by (simp only: of_int_less_iff)
  then have "(T - 1) * int b + 1 \<le> int a * int N" by linarith
  then have "real_of_int ((T - 1) * int b + 1) \<le> real_of_int (int a * int N)"
    by (simp only: of_int_le_iff)
  then have "(of_int T - 1) * real b + 1 \<le> real a * real N"
    by simp
  then have "((of_int T - 1) * real b + 1) / real b \<le> real a * real N / real b"
    by (rule divide_right_mono) simp
  then have lowx: "of_int T - 1 + 1 / real b \<le> ?x"
    using b(1) by (simp add: add_divide_distrib)
  have "1 / 100 \<le> 1 / real b"
    using b by (simp add: field_simps)
  then have lowx': "of_int T - 1 + 1 / 100 \<le> ?x"
    using lowx by linarith
  have "(real a / real b - c) * real N \<le> 1 / 2 ^ 53 * 2 ^ 32"
    using c(1,2) Nr by (intro mult_mono) simp_all
  then have err: "?x - c * real N \<le> 1 / 2 ^ 21"
    by (simp add: algebra_simps)
  have low: "of_int T - 1 + 1 / 128 \<le> c * real N"
    using lowx' err by simp
  have high: "c * real N \<le> of_int T"
  proof -
    have "c * real N \<le> ?x" using c(1) by (intro mult_right_mono) simp_all
    then show ?thesis using upper by linarith
  qed
  have y1: "of_int T - 1 + 1 / 128 = real_of_int (128 * (T - 1) + 1) / 2 ^ 7"
    by simp
  have "\<bar>128 * (T - 1) + 1\<bar> \<le> 2 ^ 53"
    using T0 TN N by simp
  then have fy1: "fl (of_int T - 1 + 1 / 128) = of_int T - 1 + 1 / 128"
    unfolding y1 by (rule fl_dyadic)
  have "\<bar>T\<bar> \<le> 2 ^ 53" using T0 TN N by simp
  then have fT: "fl (of_int T) = of_int T" by (rule fl_of_int)
  have "of_int T - 1 + 1 / 128 \<le> fl (c * real N)"
    using fl_mono [OF low] unfolding fy1 .
  moreover have "fl (c * real N) \<le> of_int T"
    using fl_mono [OF high] unfolding fT .
  ultimately have "\<lceil>fl (c * real N)\<rceil> = T"
    by (intro ceiling_unique) simp_all
  then show ?thesis by (simp add: T_def)
qed

lemma rankOf_50:
  assumes "N < 2 ^ 32"
  shows "rankOf N 50 = nearestRank N 50"
proof -
  have "\<lceil>fl (fl (50 / 100) * real N)\<rceil> = \<lceil>real 1 / real 2 * real N\<rceil>"
    unfolding fl_50 by (rule ceiling_fl_scaled [OF _ _ _ _ _ _ assms]) simp_all
  then show ?thesis by (simp add: rankOf_def nearestRank_def)
qed

lemma rankOf_95:
  assumes "N < 2 ^ 32"
  shows "rankOf N 95 = nearestRank N 95"
proof -
  have "\<lceil>fl (fl (95 / 100) * real N)\<rceil> = \<lceil>real 19 / real 20 * real N\<rceil>"
    unfolding fl_95 by (rule ceiling_fl_scaled [OF _ _ _ _ _ _ assms]) simp_all
  then show ?thesis by (simp add: rankOf_def nearestRank_def)
qed

lemma rankOf_99:
  assumes "N < 2 ^ 32"
  shows "rankOf N 99 = nearestRank N 99"
proof -
  have "\<lceil>fl (fl (99 / 100) * real N)\<rceil> = \<lceil>real 99 / real 100 * real N\<rceil>"
    unfolding fl_99 by (rule ceiling_fl_scaled [OF _ _ _ _ _ _ assms]) simp_all
  then show ?thesis by (simp add: rankOf_def nearestRank_def)
qed

lemma fl_Ints:
  assumes "x \<in> \<int>" "\<bar>x\<bar> \<le> 2 ^ 53"
  shows "fl x = x"
proof -
  obtain n where n: "x = of_int n" using assms(1) by (auto elim: Ints_cases)
  have "real_of_int \<bar>n\<bar> \<le> real_of_int (2 ^ 53)"
    using assms(2) unfolding n by simp
  then have "\<bar>n\<bar> \<le> 2 ^ 53" by (simp only: of_int_le_iff)
  then show ?thesis unfolding n by (rule fl_of_int)
qed

lemma foldl_fl_exact:
  assumes "\<forall>x \<in> set xs. x \<in> \<int>" "acc \<in> \<int>" "\<bar>acc\<bar> + (\<Sum>x\<leftarrow>xs. \<bar>x\<bar>) \<le> 2 ^ 53"
  shows "foldl (\<lambda>a b. fl (a + b)) acc xs = acc + sum_list xs"
  using assms
proof (induction xs arbitrary: acc)
  case Nil
  then show ?case by simp
next
  case (Cons x xs)
  have nonneg: "0 \<le> (\<Sum>x\<leftarrow>xs. \<bar>x\<bar>)" by (rule sum_list_nonneg) auto
  have int: "acc + x \<in> \<int>" using Cons.prems by simp
  have bound: "\<bar>acc + x\<bar> + (\<Sum>x\<leftarrow>xs. \<bar>x\<bar>) \<le> 2 ^ 53"
    using Cons.prems(3) by simp
  then have "\<bar>acc + x\<bar> \<le> 2 ^ 53" using nonneg by linarith
  then have ex: "fl (acc + x) = acc + x" using int by (intro fl_Ints)
  have "foldl (\<lambda>a b. fl (a + b)) (acc + x) xs = acc + x + sum_list xs"
    using Cons.prems(1) int bound by (intro Cons.IH) simp_all
  then show ?case by (simp add: ex)
qed

lemma round_fl_quotient:
  fixes S :: int and N :: nat
  assumes N: "0 < N" "N \<le> 2 ^ 20" and S: "\<bar>S\<bar> \<le> int N * 2 ^ 31"
  shows "round (fl (of_int S / real N)) = round (of_int S / real N)"
proof -
  let ?q = "real_of_int S / real N"
  define k where "k = round ?q"
  have Nr: "0 < real N" "real N \<le> 2 ^ 20"
    using N by (simp, metis of_nat_le_iff of_nat_numeral of_nat_power)
  have "real_of_int \<bar>S\<bar> \<le> real_of_int (int N * 2 ^ 31)"
    using S by (simp only: of_int_le_iff)
  then have "\<bar>real_of_int S\<bar> \<le> real N * 2 ^ 31" by simp
  then have "\<bar>real_of_int S\<bar> / real N \<le> 2 ^ 31"
    using Nr(1) by (simp add: field_simps)
  then have "\<bar>?q\<bar> \<le> 2 ^ 31" by simp
  then have qb: "?q \<le> 2 ^ 31" "- (2 ^ 31) \<le> ?q" by linarith+
  have klo: "of_int k - 1 / 2 \<le> ?q" and khi: "?q < of_int k + 1 / 2"
    unfolding k_def round_def by linarith+
  have "real_of_int k \<le> real_of_int (2 ^ 31 + 1)" "real_of_int (- (2 ^ 31 + 1)) \<le> real_of_int k"
    using qb klo khi by simp_all
  then have "k \<le> 2 ^ 31 + 1" "- (2 ^ 31 + 1) \<le> k" by (simp_all only: of_int_le_iff)
  then have kb: "\<bar>k\<bar> \<le> 2 ^ 31 + 1" by linarith
  have y0: "real_of_int k - 1 / 2 = real_of_int (2 * k - 1) / 2 ^ 1" by simp
  have "\<bar>2 * k - 1\<bar> \<le> 2 ^ 53" using kb by simp
  then have f0: "fl (real_of_int k - 1 / 2) = real_of_int k - 1 / 2"
    unfolding y0 by (rule fl_dyadic)
  have lower: "real_of_int k - 1 / 2 \<le> fl ?q"
    using fl_mono [OF klo] unfolding f0 .
  have "real_of_int S * 2 < (2 * real_of_int k + 1) * real N"
    using khi Nr(1) by (simp add: field_simps)
  then have "real_of_int (S * 2) < real_of_int ((2 * k + 1) * int N)" by simp
  then have "S * 2 < (2 * k + 1) * int N" by (simp only: of_int_less_iff)
  then have "S * 2 + 1 \<le> (2 * k + 1) * int N" by linarith
  then have "real_of_int (S * 2 + 1) \<le> real_of_int ((2 * k + 1) * int N)"
    by (simp only: of_int_le_iff)
  then have "real_of_int S * 2 + 1 \<le> (2 * real_of_int k + 1) * real N" by simp
  then have "(real_of_int S * 2 + 1) / (2 * real N) \<le> (2 * real_of_int k + 1) * real N / (2 * real N)"
    by (rule divide_right_mono) simp
  then have "?q + 1 / (2 * real N) \<le> real_of_int k + 1 / 2"
    using Nr(1) by (simp add: add_divide_distrib)
  moreover have "1 / 2 ^ 21 \<le> 1 / (2 * real N)"
    using Nr by (simp add: field_simps)
  ultimately have qy: "?q \<le> real_of_int k + 1 / 2 - 1 / 2 ^ 21" by linarith
  have y1: "real_of_int k + 1 / 2 - 1 / 2 ^ 21 = real_of_int (2 ^ 21 * k + 2 ^ 20 - 1) / 2 ^ 21"
    by simp
  have "\<bar>2 ^ 21 * k + 2 ^ 20 - 1\<bar> \<le> 2 ^ 53" using kb by simp
  then have f1: "fl (real_of_int k + 1 / 2 - 1 / 2 ^ 21) = real_of_int k + 1 / 2 - 1 / 2 ^ 21"
    unfolding y1 by (rule fl_dyadic)
  have upper: "fl ?q \<le> real_of_int k + 1 / 2 - 1 / 2 ^ 21"
    using fl_mono [OF qy] unfolding f1 .
  have "round (fl ?q) = k"
    unfolding round_def using lower upper by (intro floor_unique) simp_all
  then show ?thesis by (simp add: k_def)
qed

lemma sum_list_map_sort: "sum_list (map f (sort xs)) = sum_list (map (f :: real \<Rightarrow> real) xs)"
proof -
  have "mset (map f (sort xs)) = mset (map f xs)"
    by simp
  then have "sum_mset (mset (map f (sort xs))) = sum_mset (mset (map f xs))"
    by (rule arg_cong)
  then show ?thesis
    by (simp only: sum_mset_sum_list)
qed

lemma sum_list_sort: "sum_list (sort xs) = sum_list (xs :: real list)"
  using sum_list_map_sort [of "\<lambda>x. x" xs] by simp

lemma sum_list_abs_bound:
  assumes "\<forall>x \<in> set xs. \<bar>x\<bar> \<le> (B :: real)"
  shows "(\<Sum>x\<leftarrow>xs. \<bar>x\<bar>) \<le> real (length xs) * B"
  using assms by (induction xs) (auto simp: algebra_simps)

lemma sum_list_Ints: "\<forall>x \<in> set xs. x \<in> \<int> \<Longrightarrow> sum_list xs \<in> (\<int> :: real set)"
  by (induction xs) auto

lemma mean_exact:
  assumes ne: "vs \<noteq> []" and len: "length vs \<le> 2 ^ 20"
    and ints: "list_all (\<lambda>v. v \<in> \<int> \<and> \<bar>v\<bar> \<le> 2 ^ 31) vs"
  shows "mean (calculateStats engine vs) = mean (computeStats vs)"
proof -
  let ?N = "length vs"
  have all: "\<forall>x \<in> set vs. x \<in> \<int>" "\<forall>x \<in> set vs. \<bar>x\<bar> \<le> 2 ^ 31"
    using ints by (auto simp: list_all_iff)
  have Nr: "real ?N \<le> 2 ^ 20"
    using len by (metis of_nat_le_iff of_nat_numeral of_nat_power)
  have abs_sum: "(\<Sum>x\<leftarrow>vs. \<bar>x\<bar>) \<le> real ?N * 2 ^ 31"
    by (rule sum_list_abs_bound [OF all(2)])
  also have "\<dots> \<le> 2 ^ 20 * 2 ^ 31"
    using Nr by (intro mult_right_mono) simp_all
  finally have b53: "(\<Sum>x\<leftarrow>vs. \<bar>x\<bar>) \<le> 2 ^ 53" by simp
  have "(\<Sum>x\<leftarrow>sort vs. \<bar>x\<bar>) = (\<Sum>x\<leftarrow>vs. \<bar>x\<bar>)"
    by (rule sum_list_map_sort)
  then have "foldl (\<lambda>a b. fl (a + b)) 0 (sort vs) = 0 + sum_list (sort vs)"
    using all(1) b53 by (intro foldl_fl_exact) simp_all
  then have sum: "foldl (\<lambda>a b. fl (a + b)) 0 (sort vs) = sum_list vs"
    by (simp add: sum_list_sort)
  obtain S where S: "sum_list vs = of_int S"
    using sum_list_Ints [OF all(1)] by (auto elim: Ints_cases)
  have "\<bar>sum_list vs\<bar> \<le> (\<Sum>x\<leftarrow>vs. \<bar>x\<bar>)" by (rule sum_list_abs)
  then have "real_of_int \<bar>S\<bar> \<le> real_of_int (int ?N * 2 ^ 31)"
    using abs_sum unfolding S by simp
  then have Sb: "\<bar>S\<bar> \<le> int ?N * 2 ^ 31" by (simp only: of_int_le_iff)
  have "round (fl (of_int S / real ?N)) = round (of_int S / real ?N)"
    using ne len Sb by (intro round_fl_quotient) simp_all
  then show ?thesis
    using ne by (simp add: calculateStats_def computeStats_def Let_def sum S)
qed

lemma nearestRank_less: "0 < N \<Longrightarrow> nearestRank N p < N"
  by (simp add: nearestRank_def)

text \<open>
  Claim C1, as amended. \<^verbatim>\<open>calculateStats\<close> returns the all-zero record on the empty
  list. On a non-empty list the minimum and the maximum are the first and the last
  element of the sorted input, the fields are ordered
  \<open>min \<le> p50 \<le> p95 \<le> p99 \<le> max\<close>, and each percentile is the nearest-rank element
  \<open>sorted[\<lceil>p/100 \<times> N\<rceil> - 1]\<close> (an array has fewer than \<open>2\<^sup>3\<^sup>2\<close> elements). The
  mean and the standard deviation are \<^verbatim>\<open>Math.round\<close> of what double arithmetic
  computes: the sum from left to right over the sorted values, each addition rounded, the
  rounded quotient by \<open>N\<close>, and \<^verbatim>\<open>Math.pow\<close> and \<^verbatim>\<open>Math.sqrt\<close> of the engine. For
  integer values of magnitude at most \<open>2\<^sup>3\<^sup>1\<close>, at most \<open>2\<^sup>2\<^sup>0\<close> of them, the mean is
  the exact arithmetic mean rounded to the nearest integer.
\<close>

theorem calculateStats_spec:
  "calculateStats engine [] =
     \<lparr>minS = 0, maxS = 0, mean = 0, p50 = 0, p95 = 0, p99 = 0, stdDev = 0\<rparr>
   \<and> (vs \<noteq> [] \<longrightarrow>
        minS (calculateStats engine vs) = sort vs ! 0
      \<and> maxS (calculateStats engine vs) = last (sort vs)
      \<and> minS (calculateStats engine vs) \<le> p50 (calculateStats engine vs)
      \<and> p50 (calculateStats engine vs) \<le> p95 (calculateStats engine vs)
      \<and> p95 (calculateStats engine vs) \<le> p99 (calculateStats engine vs)
      \<and> p99 (calculateStats engine vs) \<le> maxS (calculateStats engine vs)
      \<and> (length vs < 2 ^ 32 \<longrightarrow>
            minS (calculateStats engine vs) = minS (computeStats vs)
          \<and> maxS (calculateStats engine vs) = maxS (computeStats vs)
          \<and> p50 (calculateStats engine vs) = p50 (computeStats vs)
          \<and> p95 (calculateStats engine vs) = p95 (computeStats vs)
          \<and> p99 (calculateStats engine vs) = p99 (computeStats vs))
      \<and> mean (calculateStats engine vs)
          = of_int (round (fl (foldl (\<lambda>a b. fl (a + b)) 0 (sort vs) / real (length vs))))
      \<and> (length vs \<le> 2 ^ 20 \<and> list_all (\<lambda>v. v \<in> \<int> \<and> \<bar>v\<bar> \<le> 2 ^ 31) vs \<longrightarrow>
            mean (calculateStats engine vs) = mean (computeStats vs))
      \<and> stdDev (calculateStats engine vs)
          = of_int (round (Math_sqrt engine
              (fl (foldl (\<lambda>a b. fl (a + b)) 0
                     (map (\<lambda>v. Math_pow engine
                             (fl (v - fl (foldl (\<lambda>a b. fl (a + b)) 0 (sort vs)
                                            / real (length vs)))) 2)
                        (sort vs))
                   / real (length vs))))))"
proof (intro conjI impI)
  show "calculateStats engine [] =
      \<lparr>minS = 0, maxS = 0, mean = 0, p50 = 0, p95 = 0, p99 = 0, stdDev = 0\<rparr>"
    by (simp add: calculateStats_def)
next
  assume ne: "vs \<noteq> []"
  let ?st = "calculateStats engine vs"
  have fields: "minS ?st = sort vs ! 0" "maxS ?st = sort vs ! (length vs - 1)"
    "p50 ?st = sort vs ! rankOf (length vs) 50"
    "p95 ?st = sort vs ! rankOf (length vs) 95"
    "p99 ?st = sort vs ! rankOf (length vs) 99"
    using ne by (simp_all add: calculateStats_def Let_def percentile_rankOf)
  have ne': "sort vs \<noteq> []" using ne by (metis length_sort length_0_conv)
  have lst: "last (sort vs) = sort vs ! (length vs - 1)"
    using ne' by (simp add: last_conv_nth)
  show "minS ?st = sort vs ! 0" by (rule fields(1))
  show "maxS ?st = last (sort vs)" by (simp add: fields(2) lst)
  show "minS ?st \<le> p50 ?st"
    unfolding fields using ne by (intro sorted_nth_mono) (simp_all add: rankOf_less)
  show "p50 ?st \<le> p95 ?st"
    unfolding fields by (rule sorted_rankOf [OF ne]) simp
  show "p95 ?st \<le> p99 ?st"
    unfolding fields by (rule sorted_rankOf [OF ne]) simp
  show "p99 ?st \<le> maxS ?st"
  proof -
    have "rankOf (length vs) 99 < length vs" using ne by (simp add: rankOf_less)
    then show ?thesis unfolding fields using ne by (intro sorted_nth_mono) simp_all
  qed
  show "mean ?st = of_int (round (fl (foldl (\<lambda>a b. fl (a + b)) 0 (sort vs) / real (length vs))))"
    using ne by (simp add: calculateStats_def Let_def)
  show "stdDev ?st
      = of_int (round (Math_sqrt engine
          (fl (foldl (\<lambda>a b. fl (a + b)) 0
                 (map (\<lambda>v. Math_pow engine
                         (fl (v - fl (foldl (\<lambda>a b. fl (a + b)) 0 (sort vs)
                                        / real (length vs)))) 2)
                    (sort vs))
               / real (length vs)))))"
    using ne by (simp add: calculateStats_def Let_def)
  have cfields: "minS (computeStats vs) = sort vs ! 0"
    "maxS (computeStats vs) = last (sort vs)"
    "p50 (computeStats vs) = sort vs ! nearestRank (length vs) 50"
    "p95 (computeStats vs) = sort vs ! nearestRank (length vs) 95"
    "p99 (computeStats vs) = sort vs ! nearestRank (length vs) 99"
    using ne by (simp_all add: computeStats_def Let_def)
  {
    assume len: "length vs < 2 ^ 32"
    show "minS ?st = minS (computeStats vs)"
      by (simp only: fields cfields)
    show "maxS ?st = maxS (computeStats vs)"
      by (simp only: fields cfields lst)
    show "p50 ?st = p50 (computeStats vs)"
      by (simp only: fields cfields rankOf_50 [OF len])
    show "p95 ?st = p95 (computeStats vs)"
      by (simp only: fields cfields rankOf_95 [OF len])
    show "p99 ?st = p99 (computeStats vs)"
      by (simp only: fields cfields rankOf_99 [OF len])
  }
  assume "length vs \<le> 2 ^ 20 \<and> list_all (\<lambda>v. v \<in> \<int> \<and> \<bar>v\<bar> \<le> 2 ^ 31) vs"
  then show "mean ?st = mean (computeStats vs)"
    using ne by (intro mean_exact) simp_all
qed

lemma sort_tenDurations: "sort tenDurations = tenDurations"
  by (simp add: tenDurations_def)

theorem calculateStats_spec_witness:
  "tenDurations \<noteq> [] \<and> length tenDurations < 2 ^ 32 \<and> length tenDurations \<le> 2 ^ 20
   \<and> list_all (\<lambda>v. v \<in> \<int> \<and> \<bar>v\<bar> \<le> 2 ^ 31) tenDurations
   \<and> minS (calculateStats correctlyRounded tenDurations) = 10
   \<and> maxS (calculateStats correctlyRounded tenDurations) = 100
   \<and> p50 (calculateStats correctlyRounded tenDurations) = 50
   \<and> p95 (calculateStats correctlyRounded tenDurations) = 100
   \<and> p99 (calculateStats correctlyRounded tenDurations) = 100
   \<and> mean (calculateStats correctlyRounded tenDurations) = 55"
proof -
  have h: "tenDurations \<noteq> []" "length tenDurations < 2 ^ 32"
    "length tenDurations \<le> 2 ^ 20 \<and> list_all (\<lambda>v. v \<in> \<int> \<and> \<bar>v\<bar> \<le> 2 ^ 31) tenDurations"
    by (simp_all add: tenDurations_def)
  note spec = calculateStats_spec [of correctlyRounded tenDurations]
  have v: "minS (computeStats tenDurations) = 10" "maxS (computeStats tenDurations) = 100"
    "p50 (computeStats tenDurations) = 50" "p95 (computeStats tenDurations) = 100"
    "p99 (computeStats tenDurations) = 100" "mean (computeStats tenDurations) = 55"
    unfolding computeStats_def Let_def sort_tenDurations
    by (simp_all add: tenDurations_def nearestRank_def)
  have "minS (calculateStats correctlyRounded tenDurations) = minS (computeStats tenDurations)"
    "maxS (calculateStats correctlyRounded tenDurations) = maxS (computeStats tenDurations)"
    "p50 (calculateStats correctlyRounded tenDurations) = p50 (computeStats tenDurations)"
    "p95 (calculateStats correctlyRounded tenDurations) = p95 (computeStats tenDurations)"
    "p99 (calculateStats correctlyRounded tenDurations) = p99 (computeStats tenDurations)"
    "mean (calculateStats correctlyRounded tenDurations) = mean (computeStats tenDurations)"
    using spec h by blast+
  then show ?thesis using h unfolding v by simp
qed

lemma fl_sum_hugeOutlier: "fl 18014398509481986 = 18014398509481984"
proof -
  have "fl 18014398509481986
      = 2 powi (54 - 52) * of_int (rne (18014398509481986 / 2 powi (54 - 52)))"
    by (rule fl_eval) simp_all
  also have "rne (18014398509481986 / 2 powi (54 - 52)) = 4503599627370496"
    by (simp add: rne_def Let_def)
  finally show ?thesis by simp
qed

lemma fl_mean_hugeOutlier: "fl (18014398509481984 / 3) = 6004799503160661"
proof -
  have "fl (18014398509481984 / 3)
      = 2 powi (52 - 52) * of_int (rne (18014398509481984 / 3 / 2 powi (52 - 52)))"
    by (rule fl_eval) simp_all
  also have "rne (18014398509481984 / 3 / 2 powi (52 - 52)) = 6004799503160661"
    by (simp add: rne_def Let_def)
  finally show ?thesis by simp
qed

text \<open>
  Eighteen durations between one and five milliseconds with the mean \<open>17/6\<close> and the
  standard deviation \<open>3/2\<close>. The lemmas \<open>fl_eighteen\<close> are the roundings that occur on
  them: of the mean, of the five differences from it and their squares, of the eighteen
  partial sums of the squares and of the quotient by eighteen, which is below \<open>9/4\<close>.
\<close>

lemma fl_eighteen_0: "fl (17 / 6) = 6380099472108203 / 2251799813685248"
proof -
  have "fl (17 / 6) = 2 powi (1 - 52) * of_int (rne (17 / 6 / 2 powi (1 - 52)))"
    by (rule fl_eval) (simp_all add: power_int_minus)
  also have "17 / 6 / 2 powi (1 - 52) = (19140298416324608 / 3 :: real)"
    by (simp add: power_int_minus)
  also have "rne (19140298416324608 / 3) = 6380099472108203"
    by (simp add: rne_def Let_def)
  finally show ?thesis by (simp add: power_int_minus)
qed

lemma fl_eighteen_1: "fl (4128299658422955 / 2251799813685248) = 4128299658422955 / 2251799813685248"
proof -
  have "fl (4128299658422955 / 2251799813685248) = 2 powi (0 - 52) * of_int (rne (4128299658422955 / 2251799813685248 / 2 powi (0 - 52)))"
    by (rule fl_eval) (simp_all add: power_int_minus)
  also have "4128299658422955 / 2251799813685248 / 2 powi (0 - 52) = (8256599316845910 :: real)"
    by (simp add: power_int_minus)
  also have "rne (8256599316845910) = 8256599316845910"
    by (simp add: rne_def Let_def)
  finally show ?thesis by (simp add: power_int_minus)
qed

lemma fl_eighteen_2: "fl (17042858069735086927877670932025 / 5070602400912917605986812821504) = 3784274686887709 / 1125899906842624"
proof -
  have "fl (17042858069735086927877670932025 / 5070602400912917605986812821504) = 2 powi (1 - 52) * of_int (rne (17042858069735086927877670932025 / 5070602400912917605986812821504 / 2 powi (1 - 52)))"
    by (rule fl_eval) (simp_all add: power_int_minus)
  also have "17042858069735086927877670932025 / 5070602400912917605986812821504 / 2 powi (1 - 52) = (17042858069735086927877670932025 / 2251799813685248 :: real)"
    by (simp add: power_int_minus)
  also have "rne (17042858069735086927877670932025 / 2251799813685248) = 7568549373775418"
    by (simp add: rne_def Let_def)
  finally show ?thesis by (simp add: power_int_minus)
qed

lemma fl_eighteen_3: "fl (1876499844737707 / 2251799813685248) = 1876499844737707 / 2251799813685248"
proof -
  have "fl (1876499844737707 / 2251799813685248) = 2 powi (-1 - 52) * of_int (rne (1876499844737707 / 2251799813685248 / 2 powi (-1 - 52)))"
    by (rule fl_eval) (simp_all add: power_int_minus)
  also have "1876499844737707 / 2251799813685248 / 2 powi (-1 - 52) = (7505999378950828 :: real)"
    by (simp add: power_int_minus)
  also have "rne (7505999378950828) = 7505999378950828"
    by (simp add: rne_def Let_def)
  finally show ?thesis by (simp add: power_int_minus)
qed

lemma fl_eighteen_4: "fl (3521251667300638477379627617849 / 5070602400912917605986812821504) = 390937467653689 / 562949953421312"
proof -
  have "fl (3521251667300638477379627617849 / 5070602400912917605986812821504) = 2 powi (-1 - 52) * of_int (rne (3521251667300638477379627617849 / 5070602400912917605986812821504 / 2 powi (-1 - 52)))"
    by (rule fl_eval) (simp_all add: power_int_minus)
  also have "3521251667300638477379627617849 / 5070602400912917605986812821504 / 2 powi (-1 - 52) = (3521251667300638477379627617849 / 562949953421312 :: real)"
    by (simp add: power_int_minus)
  also have "rne (3521251667300638477379627617849 / 562949953421312) = 6254999482459024"
    by (simp add: rne_def Let_def)
  finally show ?thesis by (simp add: power_int_minus)
qed

lemma fl_eighteen_5: "fl (375299968947541 / 2251799813685248) = 375299968947541 / 2251799813685248"
proof -
  have "fl (375299968947541 / 2251799813685248) = 2 powi (-3 - 52) * of_int (rne (375299968947541 / 2251799813685248 / 2 powi (-3 - 52)))"
    by (rule fl_eval) (simp_all add: power_int_minus)
  also have "375299968947541 / 2251799813685248 / 2 powi (-3 - 52) = (6004799503160656 :: real)"
    by (simp add: power_int_minus)
  also have "rne (6004799503160656) = 6004799503160656"
    by (simp add: rne_def Let_def)
  finally show ?thesis by (simp add: power_int_minus)
qed

lemma fl_eighteen_6: "fl (140850066692025238855209946681 / 5070602400912917605986812821504) = 4003199668773767 / 144115188075855872"
proof -
  have "fl (140850066692025238855209946681 / 5070602400912917605986812821504) = 2 powi (-6 - 52) * of_int (rne (140850066692025238855209946681 / 5070602400912917605986812821504 / 2 powi (-6 - 52)))"
    by (rule fl_eval) (simp_all add: power_int_minus)
  also have "140850066692025238855209946681 / 5070602400912917605986812821504 / 2 powi (-6 - 52) = (140850066692025238855209946681 / 17592186044416 :: real)"
    by (simp add: power_int_minus)
  also have "rne (140850066692025238855209946681 / 17592186044416) = 8006399337547534"
    by (simp add: rne_def Let_def)
  finally show ?thesis by (simp add: power_int_minus)
qed

lemma fl_eighteen_7: "fl (2627099782632789 / 2251799813685248) = 2627099782632789 / 2251799813685248"
proof -
  have "fl (2627099782632789 / 2251799813685248) = 2 powi (0 - 52) * of_int (rne (2627099782632789 / 2251799813685248 / 2 powi (0 - 52)))"
    by (rule fl_eval) (simp_all add: power_int_minus)
  also have "2627099782632789 / 2251799813685248 / 2 powi (0 - 52) = (5254199565265578 :: real)"
    by (simp add: power_int_minus)
  also have "rne (5254199565265578) = 5254199565265578"
    by (simp add: rne_def Let_def)
  finally show ?thesis by (simp add: power_int_minus)
qed

lemma fl_eighteen_8: "fl (6901653267909247212304417918521 / 5070602400912917605986812821504) = 383118718300615 / 281474976710656"
proof -
  have "fl (6901653267909247212304417918521 / 5070602400912917605986812821504) = 2 powi (0 - 52) * of_int (rne (6901653267909247212304417918521 / 5070602400912917605986812821504 / 2 powi (0 - 52)))"
    by (rule fl_eval) (simp_all add: power_int_minus)
  also have "6901653267909247212304417918521 / 5070602400912917605986812821504 / 2 powi (0 - 52) = (6901653267909247212304417918521 / 1125899906842624 :: real)"
    by (simp add: power_int_minus)
  also have "rne (6901653267909247212304417918521 / 1125899906842624) = 6129899492809840"
    by (simp add: rne_def Let_def)
  finally show ?thesis by (simp add: power_int_minus)
qed

lemma fl_eighteen_9: "fl (4878899596318037 / 2251799813685248) = 4878899596318037 / 2251799813685248"
proof -
  have "fl (4878899596318037 / 2251799813685248) = 2 powi (1 - 52) * of_int (rne (4878899596318037 / 2251799813685248 / 2 powi (1 - 52)))"
    by (rule fl_eval) (simp_all add: power_int_minus)
  also have "4878899596318037 / 2251799813685248 / 2 powi (1 - 52) = (4878899596318037 :: real)"
    by (simp add: power_int_minus)
  also have "rne (4878899596318037) = 4878899596318037"
    by (simp add: rne_def Let_def)
  finally show ?thesis by (simp add: power_int_minus)
qed

lemma fl_eighteen_10: "fl (23803661270952304397727251533369 / 5070602400912917605986812821504) = 5285474562677873 / 1125899906842624"
proof -
  have "fl (23803661270952304397727251533369 / 5070602400912917605986812821504) = 2 powi (2 - 52) * of_int (rne (23803661270952304397727251533369 / 5070602400912917605986812821504 / 2 powi (2 - 52)))"
    by (rule fl_eval) (simp_all add: power_int_minus)
  also have "23803661270952304397727251533369 / 5070602400912917605986812821504 / 2 powi (2 - 52) = (23803661270952304397727251533369 / 4503599627370496 :: real)"
    by (simp add: power_int_minus)
  also have "rne (23803661270952304397727251533369 / 4503599627370496) = 5285474562677873"
    by (simp add: rne_def Let_def)
  finally show ?thesis by (simp add: power_int_minus)
qed

lemma fl_eighteen_11: "fl (3784274686887709 / 1125899906842624) = 3784274686887709 / 1125899906842624"
proof -
  have "fl (3784274686887709 / 1125899906842624) = 2 powi (1 - 52) * of_int (rne (3784274686887709 / 1125899906842624 / 2 powi (1 - 52)))"
    by (rule fl_eval) (simp_all add: power_int_minus)
  also have "3784274686887709 / 1125899906842624 / 2 powi (1 - 52) = (7568549373775418 :: real)"
    by (simp add: power_int_minus)
  also have "rne (7568549373775418) = 7568549373775418"
    by (simp add: rne_def Let_def)
  finally show ?thesis by (simp add: power_int_minus)
qed

lemma fl_eighteen_12: "fl (3784274686887709 / 562949953421312) = 3784274686887709 / 562949953421312"
proof -
  have "fl (3784274686887709 / 562949953421312) = 2 powi (2 - 52) * of_int (rne (3784274686887709 / 562949953421312 / 2 powi (2 - 52)))"
    by (rule fl_eval) (simp_all add: power_int_minus)
  also have "3784274686887709 / 562949953421312 / 2 powi (2 - 52) = (7568549373775418 :: real)"
    by (simp add: power_int_minus)
  also have "rne (7568549373775418) = 7568549373775418"
    by (simp add: rne_def Let_def)
  finally show ?thesis by (simp add: power_int_minus)
qed

lemma fl_eighteen_13: "fl (11352824060663127 / 1125899906842624) = 1419103007582891 / 140737488355328"
proof -
  have "fl (11352824060663127 / 1125899906842624) = 2 powi (3 - 52) * of_int (rne (11352824060663127 / 1125899906842624 / 2 powi (3 - 52)))"
    by (rule fl_eval) (simp_all add: power_int_minus)
  also have "11352824060663127 / 1125899906842624 / 2 powi (3 - 52) = (11352824060663127 / 2 :: real)"
    by (simp add: power_int_minus)
  also have "rne (11352824060663127 / 2) = 5676412030331564"
    by (simp add: rne_def Let_def)
  finally show ?thesis by (simp add: power_int_minus)
qed

lemma fl_eighteen_14: "fl (15137098747550837 / 1125899906842624) = 3784274686887709 / 281474976710656"
proof -
  have "fl (15137098747550837 / 1125899906842624) = 2 powi (3 - 52) * of_int (rne (15137098747550837 / 1125899906842624 / 2 powi (3 - 52)))"
    by (rule fl_eval) (simp_all add: power_int_minus)
  also have "15137098747550837 / 1125899906842624 / 2 powi (3 - 52) = (15137098747550837 / 2 :: real)"
    by (simp add: power_int_minus)
  also have "rne (15137098747550837 / 2) = 7568549373775418"
    by (simp add: rne_def Let_def)
  finally show ?thesis by (simp add: power_int_minus)
qed

lemma fl_eighteen_15: "fl (18921373434438545 / 1125899906842624) = 1182585839652409 / 70368744177664"
proof -
  have "fl (18921373434438545 / 1125899906842624) = 2 powi (4 - 52) * of_int (rne (18921373434438545 / 1125899906842624 / 2 powi (4 - 52)))"
    by (rule fl_eval) (simp_all add: power_int_minus)
  also have "18921373434438545 / 1125899906842624 / 2 powi (4 - 52) = (18921373434438545 / 4 :: real)"
    by (simp add: power_int_minus)
  also have "rne (18921373434438545 / 4) = 4730343358609636"
    by (simp add: rne_def Let_def)
  finally show ?thesis by (simp add: power_int_minus)
qed

lemma fl_eighteen_16: "fl (9851624184872961 / 562949953421312) = 35 / 2"
proof -
  have "fl (9851624184872961 / 562949953421312) = 2 powi (4 - 52) * of_int (rne (9851624184872961 / 562949953421312 / 2 powi (4 - 52)))"
    by (rule fl_eval) (simp_all add: power_int_minus)
  also have "9851624184872961 / 562949953421312 / 2 powi (4 - 52) = (9851624184872961 / 2 :: real)"
    by (simp add: power_int_minus)
  also have "rne (9851624184872961 / 2) = 4925812092436480"
    by (simp add: rne_def Let_def)
  finally show ?thesis by (simp add: power_int_minus)
qed

lemma fl_eighteen_17: "fl (10242561652526649 / 562949953421312) = 1280320206565831 / 70368744177664"
proof -
  have "fl (10242561652526649 / 562949953421312) = 2 powi (4 - 52) * of_int (rne (10242561652526649 / 562949953421312 / 2 powi (4 - 52)))"
    by (rule fl_eval) (simp_all add: power_int_minus)
  also have "10242561652526649 / 562949953421312 / 2 powi (4 - 52) = (10242561652526649 / 2 :: real)"
    by (simp add: power_int_minus)
  also have "rne (10242561652526649 / 2) = 5121280826263324"
    by (simp add: rne_def Let_def)
  finally show ?thesis by (simp add: power_int_minus)
qed

lemma fl_eighteen_18: "fl (10633499120180337 / 562949953421312) = 664593695011271 / 35184372088832"
proof -
  have "fl (10633499120180337 / 562949953421312) = 2 powi (4 - 52) * of_int (rne (10633499120180337 / 562949953421312 / 2 powi (4 - 52)))"
    by (rule fl_eval) (simp_all add: power_int_minus)
  also have "10633499120180337 / 562949953421312 / 2 powi (4 - 52) = (10633499120180337 / 2 :: real)"
    by (simp add: power_int_minus)
  also have "rne (10633499120180337 / 2) = 5316749560090168"
    by (simp add: rne_def Let_def)
  finally show ?thesis by (simp add: power_int_minus)
qed

lemma fl_eighteen_19: "fl (2726178974434939783 / 144115188075855872) = 2662284154721621 / 140737488355328"
proof -
  have "fl (2726178974434939783 / 144115188075855872) = 2 powi (4 - 52) * of_int (rne (2726178974434939783 / 144115188075855872 / 2 powi (4 - 52)))"
    by (rule fl_eval) (simp_all add: power_int_minus)
  also have "2726178974434939783 / 144115188075855872 / 2 powi (4 - 52) = (2726178974434939783 / 512 :: real)"
    by (simp add: power_int_minus)
  also have "rne (2726178974434939783 / 512) = 5324568309443242"
    by (simp add: rne_def Let_def)
  finally show ?thesis by (simp add: power_int_minus)
qed

lemma fl_eighteen_20: "fl (2730182174103713671 / 144115188075855872) = 1333096764699079 / 70368744177664"
proof -
  have "fl (2730182174103713671 / 144115188075855872) = 2 powi (4 - 52) * of_int (rne (2730182174103713671 / 144115188075855872 / 2 powi (4 - 52)))"
    by (rule fl_eval) (simp_all add: power_int_minus)
  also have "2730182174103713671 / 144115188075855872 / 2 powi (4 - 52) = (2730182174103713671 / 512 :: real)"
    by (simp add: power_int_minus)
  also have "rne (2730182174103713671 / 512) = 5332387058796316"
    by (simp add: rne_def Let_def)
  finally show ?thesis by (simp add: power_int_minus)
qed

lemma fl_eighteen_21: "fl (2734185373772487559 / 144115188075855872) = 2670102904074695 / 140737488355328"
proof -
  have "fl (2734185373772487559 / 144115188075855872) = 2 powi (4 - 52) * of_int (rne (2734185373772487559 / 144115188075855872 / 2 powi (4 - 52)))"
    by (rule fl_eval) (simp_all add: power_int_minus)
  also have "2734185373772487559 / 144115188075855872 / 2 powi (4 - 52) = (2734185373772487559 / 512 :: real)"
    by (simp add: power_int_minus)
  also have "rne (2734185373772487559 / 512) = 5340205808149390"
    by (simp add: rne_def Let_def)
  finally show ?thesis by (simp add: power_int_minus)
qed

lemma fl_eighteen_22: "fl (2738188573441261447 / 144115188075855872) = 19"
proof -
  have "fl (2738188573441261447 / 144115188075855872) = 2 powi (4 - 52) * of_int (rne (2738188573441261447 / 144115188075855872 / 2 powi (4 - 52)))"
    by (rule fl_eval) (simp_all add: power_int_minus)
  also have "2738188573441261447 / 144115188075855872 / 2 powi (4 - 52) = (2738188573441261447 / 512 :: real)"
    by (simp add: power_int_minus)
  also have "rne (2738188573441261447 / 512) = 5348024557502464"
    by (simp add: rne_def Let_def)
  finally show ?thesis by (simp add: power_int_minus)
qed

lemma fl_eighteen_23: "fl (5731143275803079 / 281474976710656) = 5731143275803079 / 281474976710656"
proof -
  have "fl (5731143275803079 / 281474976710656) = 2 powi (4 - 52) * of_int (rne (5731143275803079 / 281474976710656 / 2 powi (4 - 52)))"
    by (rule fl_eval) (simp_all add: power_int_minus)
  also have "5731143275803079 / 281474976710656 / 2 powi (4 - 52) = (5731143275803079 :: real)"
    by (simp add: power_int_minus)
  also have "rne (5731143275803079) = 5731143275803079"
    by (simp add: rne_def Let_def)
  finally show ?thesis by (simp add: power_int_minus)
qed

lemma fl_eighteen_24: "fl (3057130997051847 / 140737488355328) = 3057130997051847 / 140737488355328"
proof -
  have "fl (3057130997051847 / 140737488355328) = 2 powi (4 - 52) * of_int (rne (3057130997051847 / 140737488355328 / 2 powi (4 - 52)))"
    by (rule fl_eval) (simp_all add: power_int_minus)
  also have "3057130997051847 / 140737488355328 / 2 powi (4 - 52) = (6114261994103694 :: real)"
    by (simp add: power_int_minus)
  also have "rne (6114261994103694) = 6114261994103694"
    by (simp add: rne_def Let_def)
  finally show ?thesis by (simp add: power_int_minus)
qed

lemma fl_eighteen_25: "fl (29742522539092649 / 1125899906842624) = 3717815317386581 / 140737488355328"
proof -
  have "fl (29742522539092649 / 1125899906842624) = 2 powi (4 - 52) * of_int (rne (29742522539092649 / 1125899906842624 / 2 powi (4 - 52)))"
    by (rule fl_eval) (simp_all add: power_int_minus)
  also have "29742522539092649 / 1125899906842624 / 2 powi (4 - 52) = (29742522539092649 / 4 :: real)"
    by (simp add: power_int_minus)
  also have "rne (29742522539092649 / 4) = 7435630634773162"
    by (simp add: rne_def Let_def)
  finally show ?thesis by (simp add: power_int_minus)
qed

lemma fl_eighteen_26: "fl (35027997101770521 / 1125899906842624) = 4378499637721315 / 140737488355328"
proof -
  have "fl (35027997101770521 / 1125899906842624) = 2 powi (4 - 52) * of_int (rne (35027997101770521 / 1125899906842624 / 2 powi (4 - 52)))"
    by (rule fl_eval) (simp_all add: power_int_minus)
  also have "35027997101770521 / 1125899906842624 / 2 powi (4 - 52) = (35027997101770521 / 4 :: real)"
    by (simp add: power_int_minus)
  also have "rne (35027997101770521 / 4) = 8756999275442630"
    by (simp add: rne_def Let_def)
  finally show ?thesis by (simp add: power_int_minus)
qed

lemma fl_eighteen_27: "fl (40313471664448393 / 1125899906842624) = 5039183958056049 / 140737488355328"
proof -
  have "fl (40313471664448393 / 1125899906842624) = 2 powi (5 - 52) * of_int (rne (40313471664448393 / 1125899906842624 / 2 powi (5 - 52)))"
    by (rule fl_eval) (simp_all add: power_int_minus)
  also have "40313471664448393 / 1125899906842624 / 2 powi (5 - 52) = (40313471664448393 / 8 :: real)"
    by (simp add: power_int_minus)
  also have "rne (40313471664448393 / 8) = 5039183958056049"
    by (simp add: rne_def Let_def)
  finally show ?thesis by (simp add: power_int_minus)
qed

lemma fl_eighteen_28: "fl (45598946227126265 / 1125899906842624) = 5699868278390783 / 140737488355328"
proof -
  have "fl (45598946227126265 / 1125899906842624) = 2 powi (5 - 52) * of_int (rne (45598946227126265 / 1125899906842624 / 2 powi (5 - 52)))"
    by (rule fl_eval) (simp_all add: power_int_minus)
  also have "45598946227126265 / 1125899906842624 / 2 powi (5 - 52) = (45598946227126265 / 8 :: real)"
    by (simp add: power_int_minus)
  also have "rne (45598946227126265 / 8) = 5699868278390783"
    by (simp add: rne_def Let_def)
  finally show ?thesis by (simp add: power_int_minus)
qed

lemma fl_eighteen_29: "fl (5699868278390783 / 2533274790395904) = 5066549580791807 / 2251799813685248"
proof -
  have "fl (5699868278390783 / 2533274790395904) = 2 powi (1 - 52) * of_int (rne (5699868278390783 / 2533274790395904 / 2 powi (1 - 52)))"
    by (rule fl_eval) (simp_all add: power_int_minus)
  also have "5699868278390783 / 2533274790395904 / 2 powi (1 - 52) = (45598946227126264 / 9 :: real)"
    by (simp add: power_int_minus)
  also have "rne (45598946227126264 / 9) = 5066549580791807"
    by (simp add: rne_def Let_def)
  finally show ?thesis by (simp add: power_int_minus)
qed

lemmas fl_eighteen = fl_eighteen_0 fl_eighteen_1 fl_eighteen_2 fl_eighteen_3 fl_eighteen_4 fl_eighteen_5 fl_eighteen_6 fl_eighteen_7 fl_eighteen_8 fl_eighteen_9 fl_eighteen_10 fl_eighteen_11 fl_eighteen_12 fl_eighteen_13 fl_eighteen_14 fl_eighteen_15 fl_eighteen_16 fl_eighteen_17 fl_eighteen_18 fl_eighteen_19 fl_eighteen_20 fl_eighteen_21 fl_eighteen_22 fl_eighteen_23 fl_eighteen_24 fl_eighteen_25 fl_eighteen_26 fl_eighteen_27 fl_eighteen_28 fl_eighteen_29

lemma rne_between:
  assumes "of_int n \<le> y" "y < of_int n + 1 / 2"
  shows "rne y = n"
proof -
  have "\<lfloor>y\<rfloor> = n" using assms by (intro floor_unique) simp_all
  then show ?thesis using assms by (simp add: rne_def Let_def)
qed

lemma avg_eighteenDurations:
  "fl (foldl (\<lambda>a b. fl (a + b)) 0
         (map (\<lambda>v. Math_pow correctlyRounded
                 (fl (v - fl (foldl (\<lambda>a b. fl (a + b)) 0 eighteenDurations
                              / real (length eighteenDurations)))) 2)
            eighteenDurations)
       / real (length eighteenDurations))
   = 5066549580791807 / 2251799813685248"
  by (simp add: eighteenDurations_def correctlyRounded_def fl_numeral fl_minus fl_eighteen)

lemma sqrt_avg_eighteenDurations:
  "fl (sqrt (5066549580791807 / 2251799813685248)) = 6755399441055743 / 4503599627370496"
proof -
  let ?v = "5066549580791807 / 2251799813685248 :: real"
  have lo: "6755399441055743 / 4503599627370496 \<le> sqrt ?v"
    by (rule real_le_rsqrt) (simp add: power2_eq_square)
  have hi: "sqrt ?v < 13510798882111487 / 9007199254740992"
    by (rule real_less_lsqrt) (simp_all add: power2_eq_square)
  have b: "2 powi 0 \<le> \<bar>sqrt ?v\<bar>" "\<bar>sqrt ?v\<bar> < 2 powi (0 + 1)"
    using lo hi by simp_all
  have "real_of_int 6755399441055743 \<le> sqrt ?v / 2 powi (0 - 52)"
    "sqrt ?v / 2 powi (0 - 52) < real_of_int 6755399441055743 + 1 / 2"
    using lo hi by (simp_all add: power_int_minus field_simps)
  then have "rne (sqrt ?v / 2 powi (0 - 52)) = 6755399441055743"
    by (rule rne_between)
  then show ?thesis
    unfolding fl_eval [OF b] by (simp add: power_int_minus)
qed

lemma stdDev_eighteenDurations:
  "stdDev (calculateStats correctlyRounded eighteenDurations) = 1"
proof -
  have s: "sort eighteenDurations = eighteenDurations"
    by (simp add: eighteenDurations_def)
  have ne: "length eighteenDurations \<noteq> 0" by (simp add: eighteenDurations_def)
  have "stdDev (calculateStats correctlyRounded eighteenDurations)
      = of_int (round (Math_sqrt correctlyRounded (5066549580791807 / 2251799813685248)))"
    unfolding calculateStats_def Let_def s using ne
    by (simp only: if_not_P if_False Stats.select_convs avg_eighteenDurations)
  also have "\<dots> = of_int (round (6755399441055743 / 4503599627370496 :: real))"
    by (simp add: correctlyRounded_def sqrt_avg_eighteenDurations)
  also have "\<dots> = 1" by (simp add: round_def)
  finally show ?thesis .
qed

lemma stdDev_exact_eighteenDurations:
  "stdDev (computeStats eighteenDurations) = 2"
proof -
  have sq: "sqrt (9 / 4) = 3 / 2"
    by (rule real_sqrt_unique) (simp_all add: power2_eq_square)
  show ?thesis
    by (simp add: computeStats_def Let_def eighteenDurations_def power2_eq_square sq round_def)
qed

text \<open>
  The claim fails for both rounded fields. The standard deviation of the eighteen
  durations is \<open>3/2\<close>, which rounds to 2; the code computes the variance
  \<open>2.2499999999999996\<close>, its root \<open>1.4999999999999998\<close>, and returns 1. The sum of
  \<open>1\<close>, \<open>1\<close> and \<open>2\<^sup>5\<^sup>4\<close> is not a double and rounds to \<open>2\<^sup>5\<^sup>4\<close>, and the
  quotient by three rounds down: the code returns a mean one below the arithmetic mean.
\<close>

theorem calculateStats_spec_counterexample:
  "eighteenDurations \<noteq> []
   \<and> stdDev (calculateStats correctlyRounded eighteenDurations) = 1
   \<and> stdDev (computeStats eighteenDurations) = 2
   \<and> hugeOutlier \<noteq> []
   \<and> mean (calculateStats correctlyRounded hugeOutlier) = 6004799503160661
   \<and> mean (computeStats hugeOutlier) = 6004799503160662"
proof -
  have s: "sort hugeOutlier = hugeOutlier" by (simp add: hugeOutlier_def)
  have "mean (calculateStats correctlyRounded hugeOutlier) = 6004799503160661"
    unfolding calculateStats_def Let_def s
    by (simp add: hugeOutlier_def fl_sum_hugeOutlier fl_mean_hugeOutlier fl_numeral)
  moreover have "mean (computeStats hugeOutlier) = 6004799503160662"
    by (simp add: computeStats_def hugeOutlier_def Let_def round_def)
  moreover have "eighteenDurations \<noteq> []" "hugeOutlier \<noteq> []"
    by (simp_all add: eighteenDurations_def hugeOutlier_def)
  ultimately show ?thesis
    using stdDev_eighteenDurations stdDev_exact_eighteenDurations by simp
qed

section \<open>Request executor\<close>

declare digits.simps [simp del]

lemma executeSigningRequestInner_no_reject:
  "executeSigningRequestInner env prepared startT \<noteq> Rejects d e"
  by (simp add: executeSigningRequestInner_def Let_def
      split: option.split sum.split promise.split)

lemma executeSigningRequestInner_failed:
  "executeSigningRequestInner env prepared startT = Fulfils d r \<Longrightarrow> \<not> success r \<Longrightarrow>
     \<exists>m. error r = Some (''[taco-signing] '' @ m)"
  by (auto simp add: executeSigningRequestInner_def Let_def
      split: option.splits sum.splits promise.splits)

text \<open>
  Claim C8. \<^verbatim>\<open>executeSigningRequest\<close> never rejects and never stays pending: for
  every payload, signing behaviour and timeout it resolves to one \<^verbatim>\<open>RequestResult\<close>.
  On a failed result the error is tagged: \<^verbatim>\<open>[taco-signing]\<close> when the signing
  layer failed before the timeout, \<^verbatim>\<open>[timeout]\<close> when the timeout elapsed first
  (and then the result is a failure).
\<close>

theorem executeSigningRequest_resolves:
  "\<exists>d r. executeSigningRequest env prepared startT = Fulfils d r
     \<and> (\<not> success r \<longrightarrow>
          (if settlesInTime (executeSigningRequestInner env prepared startT)
                (REQUEST_TIMEOUT_SECONDS env * 1000)
           then \<exists>m. error r = Some (''[taco-signing] '' @ m)
           else error r = Some (''[timeout] Request timed out after ''
                                 @ digits (REQUEST_TIMEOUT_SECONDS env) @ ''s'')))
     \<and> (\<not> settlesInTime (executeSigningRequestInner env prepared startT)
              (REQUEST_TIMEOUT_SECONDS env * 1000) \<longrightarrow> \<not> success r)"
proof (cases "settlesInTime (executeSigningRequestInner env prepared startT)
                (REQUEST_TIMEOUT_SECONDS env * 1000)")
  case True
  then obtain d r where inner: "executeSigningRequestInner env prepared startT = Fulfils d r"
    using executeSigningRequestInner_no_reject [of env prepared startT]
    by (cases "executeSigningRequestInner env prepared startT") (auto simp: settlesInTime_def)
  have "executeSigningRequest env prepared startT = Fulfils d r"
    using True inner by (simp add: executeSigningRequest_def withTimeout_def Let_def)
  moreover have "\<not> success r \<longrightarrow> (\<exists>m. error r = Some (''[taco-signing] '' @ m))"
    using executeSigningRequestInner_failed [OF inner] by blast
  ultimately show ?thesis using True by auto
next
  case False
  then show ?thesis
    by (simp add: executeSigningRequest_def withTimeout_def Let_def)
qed

theorem executeSigningRequest_resolves_witness:
  "(\<exists>d r. executeSigningRequest
       \<lparr>cachedCondition = True, signUserOpWithTaco = (\<lambda>_ _. Never),
        REQUEST_TIMEOUT_SECONDS = 120\<rparr>
       (Some \<lparr>userOp = ''op'', discordContext = None, signingContext = None\<rparr>) 1000
       = Fulfils d r
     \<and> \<not> success r \<and> error r = Some ''[timeout] Request timed out after 120s'')
   \<and> (\<exists>d r. executeSigningRequest
       \<lparr>cachedCondition = True, signUserOpWithTaco = (\<lambda>_ _. Rejects 50 (Error ''boom'')),
        REQUEST_TIMEOUT_SECONDS = 120\<rparr>
       (Some \<lparr>userOp = ''op'', discordContext = None, signingContext = None\<rparr>) 1000
       = Fulfils d r
     \<and> \<not> success r \<and> (\<exists>m. error r = Some (''[taco-signing] '' @ m)))"
proof (intro conjI)
  let ?pp = "Some \<lparr>userOp = ''op'', discordContext = None, signingContext = None\<rparr>"
  let ?e1 = "\<lparr>cachedCondition = True, signUserOpWithTaco = (\<lambda>_ _. Never),
        REQUEST_TIMEOUT_SECONDS = 120\<rparr>"
  let ?e2 = "\<lparr>cachedCondition = True,
        signUserOpWithTaco = (\<lambda>_ _. Rejects 50 (Error ''boom'')),
        REQUEST_TIMEOUT_SECONDS = 120\<rparr>"
  have late: "\<not> settlesInTime (executeSigningRequestInner ?e1 ?pp 1000)
      (REQUEST_TIMEOUT_SECONDS ?e1 * 1000)"
    by (simp add: executeSigningRequestInner_def settlesInTime_def)
  have d120: "digits 120 = ''120''"
    by (simp add: digits.simps)
  from executeSigningRequest_resolves [of ?e1 ?pp 1000] late d120
  show "\<exists>d r. executeSigningRequest ?e1 ?pp 1000 = Fulfils d r
     \<and> \<not> success r \<and> error r = Some ''[timeout] Request timed out after 120s''"
    by auto
  have early: "settlesInTime (executeSigningRequestInner ?e2 ?pp 1000)
      (REQUEST_TIMEOUT_SECONDS ?e2 * 1000)"
    by (simp add: executeSigningRequestInner_def settlesInTime_def)
  have failed: "\<forall>d r. executeSigningRequest ?e2 ?pp 1000 = Fulfils d r \<longrightarrow> \<not> success r"
    by (simp add: executeSigningRequest_def executeSigningRequestInner_def settlesInTime_def
        withTimeout_def)
  from executeSigningRequest_resolves [of ?e2 ?pp 1000] early failed
  show "\<exists>d r. executeSigningRequest ?e2 ?pp 1000 = Fulfils d r
     \<and> \<not> success r \<and> (\<exists>m. error r = Some (''[taco-signing] '' @ m))"
    by auto
qed

section \<open>Failure attributor\<close>

lemma keys_attribute:
  "map fst (attribute a b m) = (if a \<in> set (map fst m) then map fst m else map fst m @ [a])"
  by (simp add: attribute_def Let_def update_keys)

lemma keys_foldl_attribute:
  "map fst (foldl (\<lambda>m x. attribute (k x) (t x) m) m xs) = addKeys (map fst m) (map k xs)"
proof (induction xs arbitrary: m)
  case Nil
  then show ?case by (simp add: addKeys_def)
next
  case (Cons x xs)
  show ?case
    using Cons.IH [of "attribute (k x) (t x) m"]
    by (simp add: addKeys_def keys_attribute)
qed

lemma addKeys_append: "addKeys ks (as @ bs) = addKeys (addKeys ks as) bs"
  by (simp add: addKeys_def)

lemma keys_processError:
  "map fst (processError je m e) = addKeys (map fst m) (attributed je e)"
proof -
  have a: "map fst (foldl (\<lambda>m addr. attribute addr True m) m (timeoutMatches e))
      = addKeys (map fst m) (timeoutMatches e)"
    using keys_foldl_attribute [of "\<lambda>a. a" "\<lambda>_. True" m "timeoutMatches e"] by simp
  have b: "map fst (foldl (\<lambda>m (addr, msg). attribute addr (includes_str msg ''timeout'') m) m' es)
      = addKeys (map fst m') (map fst es)" for m' es
    using keys_foldl_attribute [of fst "\<lambda>x. includes_str (snd x) ''timeout''" m' es]
    by (simp add: case_prod_unfold)
  show ?thesis
    by (simp add: processError_def attributed_def Let_def a b addKeys_append
        split: option.split) (simp add: addKeys_def)
qed

lemma keys_foldl_processError:
  "map fst (foldl (processError je) m errors)
     = addKeys (map fst m) (concat (map (attributed je) errors))"
proof (induction errors arbitrary: m)
  case Nil
  then show ?case by (simp add: addKeys_def)
next
  case (Cons e errors)
  show ?case
    using Cons.IH [of "processError je m e"]
    by (simp add: keys_processError addKeys_append)
qed

lemma addKeys_snoc:
  "addKeys ks (as @ [a]) = (if a \<in> set (addKeys ks as) then addKeys ks as else addKeys ks as @ [a])"
  by (simp add: addKeys_def)

lemma firstSeen_less: "a \<in> set seen \<Longrightarrow> firstSeen seen a < length seen"
proof -
  assume "a \<in> set seen"
  then have "takeWhile (\<lambda>x. x \<noteq> a) seen \<noteq> seen"
    by auto
  moreover have "length (takeWhile (\<lambda>x. x \<noteq> a) seen) \<le> length seen"
    by (rule length_takeWhile_le)
  moreover have "length (takeWhile (\<lambda>x. x \<noteq> a) seen) = length seen
      \<Longrightarrow> takeWhile (\<lambda>x. x \<noteq> a) seen = seen"
    by (metis takeWhile_dropWhile_id append_eq_conv_conj take_all order_refl)
  ultimately show ?thesis
    unfolding firstSeen_def by fastforce
qed

lemma firstSeen_append_old: "a \<in> set seen \<Longrightarrow> firstSeen (seen @ later) a = firstSeen seen a"
  unfolding firstSeen_def by (induction seen) auto

lemma firstSeen_append_new: "a \<notin> set seen \<Longrightarrow> firstSeen (seen @ [a]) a = length seen"
  unfolding firstSeen_def by (induction seen) auto

lemma addKeys_first_seen:
  "set (addKeys [] seen) = set seen
   \<and> sorted_wrt (\<lambda>a b. firstSeen seen a < firstSeen seen b) (addKeys [] seen)"
proof (induction seen rule: rev_induct)
  case Nil
  then show ?case by (simp add: addKeys_def)
next
  case (snoc a seen)
  let ?ks = "addKeys [] seen"
  have set_ks: "set ?ks = set seen" using snoc by simp
  have srt: "sorted_wrt (\<lambda>a b. firstSeen seen a < firstSeen seen b) ?ks" using snoc by simp
  have srt': "sorted_wrt (\<lambda>x y. firstSeen (seen @ [a]) x < firstSeen (seen @ [a]) y) ?ks"
    using srt
    by (rule sorted_wrt_mono_rel [rotated]) (simp add: set_ks firstSeen_append_old)
  show ?case
  proof (cases "a \<in> set seen")
    case True
    then show ?thesis using set_ks srt' by (auto simp: addKeys_snoc)
  next
    case False
    have "\<forall>x\<in>set ?ks. firstSeen (seen @ [a]) x < firstSeen (seen @ [a]) a"
      using False set_ks by (simp add: firstSeen_append_old firstSeen_append_new firstSeen_less)
    then show ?thesis
      using False set_ks srt' by (auto simp: addKeys_snoc sorted_wrt_append)
  qed
qed

lemma insort_key_stable_wrt:
  fixes f :: "'a \<Rightarrow> int"
  assumes "sorted_wrt (\<lambda>x y. f x < f y \<or> (f x = f y \<and> R x y)) ys"
    and "\<forall>y\<in>set ys. R x y"
  shows "sorted_wrt (\<lambda>x y. f x < f y \<or> (f x = f y \<and> R x y)) (insort_key f x ys)"
  using assms
proof (induction ys)
  case Nil
  then show ?case by simp
next
  case (Cons y ys)
  show ?case
  proof (cases "f x \<le> f y")
    case True
    have "\<forall>z\<in>set (y # ys). f x < f z \<or> (f x = f z \<and> R x z)"
      using True Cons.prems by fastforce
    then show ?thesis using True Cons.prems(1) by simp
  next
    case False
    have "sorted_wrt (\<lambda>x y. f x < f y \<or> (f x = f y \<and> R x y)) (insort_key f x ys)"
      using Cons by simp
    then show ?thesis using False Cons.prems(1) by (auto simp: set_insort_key)
  qed
qed

lemma sort_key_stable_wrt:
  fixes f :: "'a \<Rightarrow> int"
  assumes "sorted_wrt R xs"
  shows "sorted_wrt (\<lambda>x y. f x < f y \<or> (f x = f y \<and> R x y)) (sort_key f xs)"
  using assms
proof (induction xs)
  case Nil
  then show ?case by simp
next
  case (Cons x xs)
  then show ?case
    by (simp add: insort_key_stable_wrt)
qed

lemma timeoutMatches_Nil: "timeoutMatches [] = []"
  by (subst timeoutMatches.simps) simp

lemma timeoutMatches_example:
  "timeoutMatches ''Node 0xABC did not respond before timeout'' = [''0xABC'']"
  by (subst timeoutMatches.simps)
    (simp add: matchTimeoutAt_def matchLiteral_def matchSome_def isSpace_def isHex_def
      timeoutMatches_Nil)

lemma jsonMatch_example:
  "jsonMatch ''Node 0xABC did not respond before timeout'' = None"
  by (simp add: matchErrorsAt_def matchLiteral_def)

lemma parseNodeFailures_single:
  "parseNodeFailures je [''Node 0xABC did not respond before timeout'']
     = [\<lparr>timeouts = 1, otherErrors = 0, address = ''0xABC''\<rparr>]"
  by (simp add: parseNodeFailures_def processError_def timeoutMatches_example
      jsonMatch_example attribute_def Let_def del: jsonMatch.simps)

lemma parseNodeFailures_sorted:
  "sorted_wrt
     (\<lambda>a b. totalFailures b < totalFailures a
        \<or> (totalFailures b = totalFailures a
            \<and> firstSeen (concat (map (attributed je) errors)) (address a)
                < firstSeen (concat (map (attributed je) errors)) (address b)))
     (parseNodeFailures je errors)"
proof -
  let ?seen = "concat (map (attributed je) errors)"
  let ?m = "foldl (processError je) [] errors"
  let ?mk = "\<lambda>(addr, counts).
     \<lparr>timeouts = timeouts counts, otherErrors = otherErrors counts, address = addr\<rparr>"
  have keys: "map fst ?m = addKeys [] ?seen"
    using keys_foldl_processError [of je "[]" errors] by simp
  have "sorted_wrt (\<lambda>a b. firstSeen ?seen a < firstSeen ?seen b) (map fst ?m)"
    using addKeys_first_seen [of ?seen] keys by simp
  then have "sorted_wrt (\<lambda>x y. firstSeen ?seen (address x) < firstSeen ?seen (address y))
      (map ?mk ?m)"
    by (simp add: sorted_wrt_map case_prod_unfold)
  then have "sorted_wrt
      (\<lambda>x y. - int (totalFailures x) < - int (totalFailures y)
         \<or> (- int (totalFailures x) = - int (totalFailures y)
             \<and> firstSeen ?seen (address x) < firstSeen ?seen (address y)))
      (sort_key (\<lambda>nf. - int (totalFailures nf)) (map ?mk ?m))"
    by (rule sort_key_stable_wrt)
  then show ?thesis
    unfolding parseNodeFailures_def
    by (rule sorted_wrt_mono_rel [rotated]) auto
qed

lemma processError_unparseable:
  "\<forall>g. je g = None \<Longrightarrow> processError je m e = processError (\<lambda>_. Some []) m e"
  by (simp add: processError_def Let_def split: option.split)

text \<open>
  Claim C6. On the single message \<^verbatim>\<open>Node 0xABC did not respond before timeout\<close>
  \<^verbatim>\<open>parseNodeFailures\<close> returns one entry, for \<^verbatim>\<open>0xABC\<close>, with one timeout and
  no other error. For every list of messages, and whatever the JSON parser makes of the
  fragments, the output is sorted by descending total, and entries of equal total stand in
  the order in which their addresses were first seen. A fragment that does not parse raises
  nothing: it counts like an empty object.
\<close>

theorem parseNodeFailures_spec:
  "parseNodeFailures je [''Node 0xABC did not respond before timeout'']
     = [\<lparr>timeouts = 1, otherErrors = 0, address = ''0xABC''\<rparr>]
   \<and> sorted_wrt
       (\<lambda>a b. totalFailures b < totalFailures a
          \<or> (totalFailures b = totalFailures a
              \<and> firstSeen (concat (map (attributed je) errors)) (address a)
                  < firstSeen (concat (map (attributed je) errors)) (address b)))
       (parseNodeFailures je errors)
   \<and> ((\<forall>g. je g = None) \<longrightarrow>
        parseNodeFailures je errors = parseNodeFailures (\<lambda>_. Some []) errors)"
proof (intro conjI impI)
  assume none: "\<forall>g. je g = None"
  have "processError je = processError (\<lambda>_. Some [])"
    using processError_unparseable [OF none] by (intro ext)
  then show "parseNodeFailures je errors = parseNodeFailures (\<lambda>_. Some []) errors"
    by (simp add: parseNodeFailures_def)
qed (rule parseNodeFailures_single, rule parseNodeFailures_sorted)

lemma jsonMatch_example2:
  "jsonMatch ''TACo signing failed with errors: {oops}'' = Some ''{oops}''"
  by (simp add: matchErrorsAt_def matchLiteral_def matchSome_def isSpace_def)

lemma timeoutMatches_example2:
  "timeoutMatches ''TACo signing failed with errors: {oops}'' = []"
  by (simp add: timeoutMatches.simps matchTimeoutAt_def matchLiteral_def)

theorem parseNodeFailures_spec_witness:
  "(\<forall>g. (\<lambda>_. None :: (string \<times> string) list option) g = None)
   \<and> parseNodeFailures (\<lambda>_. None)
       [''Node 0xABC did not respond before timeout'',
        ''TACo signing failed with errors: {oops}'']
     = [\<lparr>timeouts = 1, otherErrors = 0, address = ''0xABC''\<rparr>]"
proof -
  have "parseNodeFailures (\<lambda>_. Some [])
       [''Node 0xABC did not respond before timeout'',
        ''TACo signing failed with errors: {oops}'']
     = [\<lparr>timeouts = 1, otherErrors = 0, address = ''0xABC''\<rparr>]"
    by (simp add: parseNodeFailures_def processError_def timeoutMatches_example
      jsonMatch_example timeoutMatches_example2 jsonMatch_example2 attribute_def Let_def
      del: jsonMatch.simps)
  then show ?thesis
    using parseNodeFailures_spec [of "\<lambda>_. None"
       "[''Node 0xABC did not respond before timeout'',
         ''TACo signing failed with errors: {oops}'']"]
    by simp
qed

lemma parseNodeFailures_example:
  "parseNodeFailures
     (\<lambda>g. if g = ''{j}'' then Some [(''0x2'', ''request timeout''), (''0x1'', ''denied'')]
           else None)
     [''Node 0x1 did not respond before timeout'',
      ''TACo signing failed with errors: {j}'',
      ''Node 0x3 did not respond before timeout'']
   = [\<lparr>timeouts = 1, otherErrors = 1, address = ''0x1''\<rparr>,
      \<lparr>timeouts = 1, otherErrors = 0, address = ''0x2''\<rparr>,
      \<lparr>timeouts = 1, otherErrors = 0, address = ''0x3''\<rparr>]"
  by (simp add: parseNodeFailures_def processError_def timeoutMatches.simps matchTimeoutAt_def
      matchLiteral_def matchSome_def isSpace_def isHex_def matchErrorsAt_def attribute_def
      totalFailures_def Let_def)

section \<open>Steady-rate controller\<close>

lemma processResult_fields:
  "results (snd (processResult opts t0 r s)) = results s @ [r]"
  "map index_tl (timeline (snd (processResult opts t0 r s)))
     = map index_tl (timeline s) @ [index r]"
  "pendingRequests (snd (processResult opts t0 r s)) = pendingRequests s"
  "nextRequestIndex (snd (processResult opts t0 r s)) = nextRequestIndex s"
  "settled (snd (processResult opts t0 r s)) = settled s"
  "returned (snd (processResult opts t0 r s)) = returned s"
  "phase (snd (processResult opts t0 r s)) = phase s"
  "dispatched (snd (processResult opts t0 r s)) = dispatched s"
  "payloadIndex (snd (processResult opts t0 r s)) = payloadIndex s"
  "sleeping (snd (processResult opts t0 r s)) = sleeping s"
  by (simp_all add: processResult_def Let_def split: option.split)

lemma steadyInv_processResult:
  assumes "steadyInv s" "index r \<notin> index ` set (results s)"
    "index r \<notin> set (pendingRequests s)" "index r < nextRequestIndex s"
  shows "steadyInv (snd (processResult opts t0 r s))"
  using assms unfolding steadyInv_def processResult_fields by auto

lemma onResolve_fields:
  "results (onResolve opts t0 i raw s) = results s @ [raw\<lparr>index := i\<rparr>]"
  "map index_tl (timeline (onResolve opts t0 i raw s)) = map index_tl (timeline s) @ [i]"
  "pendingRequests (onResolve opts t0 i raw s) = removeAll i (pendingRequests s)"
  "nextRequestIndex (onResolve opts t0 i raw s) = nextRequestIndex s"
  "settled (onResolve opts t0 i raw s) = settled s @ [(i, raw\<lparr>index := i\<rparr>)]"
  "returned (onResolve opts t0 i raw s) = returned s"
  "phase (onResolve opts t0 i raw s) = phase s"
  "dispatched (onResolve opts t0 i raw s) = dispatched s"
  "payloadIndex (onResolve opts t0 i raw s) = payloadIndex s"
  by (simp_all add: onResolve_def Let_def case_prod_unfold processResult_fields)

lemma steadyInv_onResolve:
  assumes "steadyInv s" "i \<in> set (pendingRequests s)"
  shows "steadyInv (onResolve opts t0 i raw s)"
  using assms unfolding steadyInv_def onResolve_fields by auto

lemma drainRemaining_id:
  assumes "steadyInv s"
  shows "drainRemaining opts t0 remaining s = s"
proof -
  have step: "(case map_of (settled s) i of
          None \<Rightarrow> s
        | Some result \<Rightarrow>
            if \<exists>r \<in> set (results s). index r = index result then s
            else snd (processResult opts t0 result s)) = s" for i
  proof (cases "map_of (settled s) i")
    case None
    then show ?thesis by simp
  next
    case (Some result)
    then have "(i, result) \<in> set (settled s)" by (rule map_of_SomeD)
    then have "index result \<in> index ` set (results s)"
      using assms unfolding steadyInv_def by fastforce
    then show ?thesis using Some by auto
  qed
  show ?thesis
    unfolding drainRemaining_def
    by (induction remaining) (simp_all add: step)
qed

lemma steadyInv_finish: "steadyInv s \<Longrightarrow> steadyInv (finish s)"
  unfolding steadyInv_def finish_def by simp

lemma steadyInv_afterLoop: "steadyInv s \<Longrightarrow> steadyInv (afterLoop s)"
  unfolding afterLoop_def
  by (auto simp: steadyInv_finish) (simp add: steadyInv_def)

lemma steadyInv_stopReason: "steadyInv s \<Longrightarrow> steadyInv (s\<lparr>stopReason := x\<rparr>)"
  unfolding steadyInv_def by simp

lemma steadyInv_loopIteration:
  assumes "steadyInv s"
  shows "steadyInv (loopIteration opts ps t0 now1 now2 s)"
proof -
  have "steadyInv
     (s\<lparr>payloadIndex := payloadIndex s + 1,
        nextRequestIndex := nextRequestIndex s + 1,
        dispatched := dispatched s @ [(nextRequestIndex s, payloadAt ps (payloadIndex s))],
        pendingRequests :=
          (if nextRequestIndex s \<in> set (pendingRequests s) then pendingRequests s
           else pendingRequests s @ [nextRequestIndex s]),
        sleeping := b\<rparr>)" for b
    using assms unfolding steadyInv_def by (auto simp: less_Suc_eq)
  then show ?thesis
    using assms
    by (simp add: loopIteration_def Let_def steadyInv_afterLoop steadyInv_stopReason)
qed

lemma steadyInv_step:
  assumes "steadyInv s"
  shows "steadyInv (steadyStep opts ps t0 s ev)"
proof (cases ev)
  case (Iterate now1 now2)
  then show ?thesis
    using assms by (simp add: steadyStep_def steadyInv_loopIteration)
next
  case (Resolve i raw)
  show ?thesis
  proof (cases "i \<notin> set (pendingRequests s) \<or> (phase s = Looping \<and> \<not> sleeping s)")
    case True
    then show ?thesis using assms Resolve by (simp add: steadyStep_def)
  next
    case False
    then have inv1: "steadyInv (onResolve opts t0 i raw s)"
      using assms by (simp add: steadyInv_onResolve)
    show ?thesis
      using False Resolve inv1
      by (auto simp: steadyStep_def Let_def drainRemaining_id steadyInv_finish
          split: Phase.split)
  qed
qed

lemma steadyInv_initial: "steadyInv initialState"
  by (simp add: steadyInv_def initialState_def)

lemma steadyInv_foldl:
  "steadyInv s \<Longrightarrow> steadyInv (foldl (steadyStep opts ps t0) s events)"
  by (induction events arbitrary: s) (simp_all add: steadyInv_step)

lemma steadyInv_run: "steadyInv (runSteadyMode opts ps t0 events)"
  unfolding runSteadyMode_def by (rule steadyInv_foldl [OF steadyInv_initial])

lemma processResult_fail_fields:
  assumes "maxConsecutiveFailures opts = Some m" "\<not> success r"
  shows "consecutiveFailures (snd (processResult opts t0 r s)) = consecutiveFailures s + 1"
    "fst (processResult opts t0 r s) \<longleftrightarrow> m \<le> int (consecutiveFailures s + 1)"
    "stopReason (snd (processResult opts t0 r s))
       = (if m \<le> int (consecutiveFailures s + 1) then ConsecutiveFailures else stopReason s)"
  using assms by (simp_all add: processResult_def Let_def)

lemma onResolve_fail_fields:
  assumes "maxConsecutiveFailures opts = Some m" "\<not> success raw"
  shows "consecutiveFailures (onResolve opts t0 i raw s) = consecutiveFailures s + 1"
    "shouldStop (onResolve opts t0 i raw s) \<longleftrightarrow> m \<le> int (consecutiveFailures s + 1)"
    "stopReason (onResolve opts t0 i raw s)
       = (if m \<le> int (consecutiveFailures s + 1) then ConsecutiveFailures else stopReason s)"
  using assms by (simp_all add: onResolve_def processResult_def Let_def)

lemma failInv_onResolve:
  assumes "maxConsecutiveFailures opts = Some m" "0 < m" "\<not> success raw" "failInv m s"
  shows "failInv m (onResolve opts t0 i raw s)"
  using assms unfolding failInv_def
  by (auto simp: onResolve_fail_fields onResolve_fields)

lemma failInv_loopIteration:
  assumes "maxConsecutiveFailures opts = Some m" "maxDuration opts = None" "failInv m s"
    "phase s = Looping"
  shows "failInv m (loopIteration opts ps t0 now1 now2 s)"
proof -
  have total: "totalRequests opts = None"
    using assms(1) by (simp add: totalRequests_def hasStopConditions_def)
  show ?thesis
  proof (cases "shouldStop s")
    case True
    then have "stopReason s = ConsecutiveFailures" "m \<le> int (length (results s))"
      using assms(3) unfolding failInv_def by auto
    then show ?thesis
      using True assms(3) unfolding failInv_def
      by (simp add: loopIteration_def afterLoop_def finish_def)
  next
    case False
    then show ?thesis
      using assms total unfolding failInv_def
      by (simp add: loopIteration_def Let_def)
  qed
qed

lemma failInv_step:
  assumes "maxConsecutiveFailures opts = Some m" "0 < m" "maxDuration opts = None" "failInv m s"
    "case ev of Resolve i r \<Rightarrow> \<not> success r | Iterate a b \<Rightarrow> True"
  shows "failInv m (steadyStep opts ps t0 s ev)"
proof (cases ev)
  case (Iterate now1 now2)
  then show ?thesis
    using assms failInv_loopIteration [of opts m s ps t0 now1 now2]
    by (auto simp: steadyStep_def)
next
  case (Resolve i raw)
  then have nf: "\<not> success raw" using assms(5) by simp
  have inv': "failInv m (onResolve opts t0 i raw s)"
    using failInv_onResolve [OF assms(1,2) nf assms(4)] .
  have "phase (onResolve opts t0 i raw s) = Looping \<or> phase (onResolve opts t0 i raw s) = Returned"
    using inv' unfolding failInv_def by blast
  then show ?thesis
    using Resolve inv' assms(4)
    by (auto simp: steadyStep_def Let_def)
qed

lemma failInv_foldl:
  assumes "maxConsecutiveFailures opts = Some m" "0 < m" "maxDuration opts = None"
  shows "failInv m s \<Longrightarrow> allFail events \<Longrightarrow> failInv m (foldl (steadyStep opts ps t0) s events)"
proof (induction events arbitrary: s)
  case Nil
  then show ?case by simp
next
  case (Cons ev events)
  have "failInv m (steadyStep opts ps t0 s ev)"
    using failInv_step [OF assms Cons.prems(1)] Cons.prems(2) by (simp add: allFail_def)
  then show ?case
    using Cons.IH Cons.prems(2) by (simp add: allFail_def)
qed

lemma failInv_run:
  assumes "maxConsecutiveFailures opts = Some m" "0 < m" "maxDuration opts = None"
    "allFail events"
  shows "failInv m (runSteadyMode opts ps t0 events)"
proof -
  have init: "failInv m (initialState :: 'a SteadyState)"
    using assms(2) by (simp add: failInv_def initialState_def)
  show ?thesis
    unfolding runSteadyMode_def by (rule failInv_foldl [OF assms(1-3) init assms(4)])
qed

lemma printResults_ok:
  assumes "rs \<noteq> []"
  shows "\<exists>summary. printResults engine je rs md rt lbl = Inr summary
     \<and> total (requests summary) = length rs
     \<and> success_req (requests summary) = length (filter success rs)
     \<and> failed (requests summary) = length (filter (\<lambda>r. \<not> success r) rs)
     \<and> mode summary = md \<and> targetRate summary = rt
     \<and> stoppedEarly summary = None"
  using assms by (simp add: printResults_def Let_def)

lemma steadySummary_ok:
  assumes "results_res res \<noteq> []"
  shows "\<exists>summary. steadySummary engine je rt res = Inr summary
     \<and> total (requests summary) = length (results_res res)
     \<and> stopReason_run summary = Some (stopReason_res res)
     \<and> consecutiveFailuresAtStop_run summary = consecutiveFailuresAtStop res
     \<and> timeline_run summary = Some (timeline_res res)"
  using printResults_ok [OF assms, of engine je Steady rt None]
  by (auto simp: steadySummary_def)

lemmas steady_eval =
  runSteadyMode_def steadyStep_def loopIteration_def onResolve_def processResult_def
  afterLoop_def finish_def drainRemaining_def initialState_def payloadAt_def
  totalRequests_def hasStopConditions_def intervalMs_def Let_def fl_numeral

lemma pacing_sleeps:
  assumes "0 < rate opts"
  shows "0 < max 0 (fl (fl (real (Suc n) * intervalMs opts) - real_of_int (t0 - t0)))"
proof -
  have "0 < 1000 / rate opts" using assms by simp
  then have "0 < intervalMs opts" unfolding intervalMs_def by (rule fl_pos)
  then have "0 < real (Suc n) * intervalMs opts" by simp
  then have "0 < fl (real (Suc n) * intervalMs opts)" by (rule fl_pos)
  then have "0 < fl (fl (real (Suc n) * intervalMs opts) - real_of_int (t0 - t0))"
    by (intro fl_pos) simp
  then show ?thesis by simp
qed

lemma loopIteration_dispatch_fields:
  assumes "\<not> shouldStop s" "maxDuration opts = None" "totalRequests opts = None"
    "0 < rate opts"
  shows "phase (loopIteration opts ps t0 now1 t0 s) = phase s"
    "results (loopIteration opts ps t0 now1 t0 s) = results s"
    "sleeping (loopIteration opts ps t0 now1 t0 s)"
    "nextRequestIndex s \<in> set (pendingRequests (loopIteration opts ps t0 now1 t0 s))"
  using assms pacing_sleeps [OF assms(4), of "nextRequestIndex s" t0]
  by (simp_all add: loopIteration_def Let_def)

lemma fail_round:
  assumes opts: "maxConsecutiveFailures opts = Some m" "0 < m" "maxDuration opts = None"
    "0 < rate opts"
    and inv: "failInv m s" and loop: "phase s = Looping" and few: "int (length (results s)) < m"
    and nf: "\<not> success r"
  shows "\<exists>s'. foldl (steadyStep opts ps t0) s [Iterate t0 t0, Resolve (nextRequestIndex s) r] = s'
     \<and> failInv m s' \<and> phase s' = Looping \<and> length (results s') = Suc (length (results s))"
proof -
  let ?s1 = "loopIteration opts ps t0 t0 t0 s"
  let ?i = "nextRequestIndex s"
  have total: "totalRequests opts = None"
    using opts(1) by (simp add: totalRequests_def hasStopConditions_def)
  have ns: "\<not> shouldStop s"
    using inv few unfolding failInv_def by auto
  note f = loopIteration_dispatch_fields [OF ns opts(3) total opts(4), of ps t0 t0]
  have step1: "steadyStep opts ps t0 s (Iterate t0 t0) = ?s1"
    using loop by (simp add: steadyStep_def)
  have inv1: "failInv m ?s1"
    using failInv_step [OF opts(1-3) inv, of "Iterate t0 t0" ps t0] step1 by simp
  let ?s2 = "onResolve opts t0 ?i r ?s1"
  have ph2: "phase ?s2 = Looping" using f(1) loop by (simp add: onResolve_fields)
  have step2: "steadyStep opts ps t0 ?s1 (Resolve ?i r) = ?s2"
    using f(3,4) ph2 by (simp add: steadyStep_def Let_def)
  have inv2: "failInv m ?s2"
    using failInv_step [OF opts(1-3) inv1, of "Resolve ?i r" ps t0] nf step2 by simp
  have "length (results ?s2) = Suc (length (results s))"
    using f(2) by (simp add: onResolve_fields)
  then show ?thesis
    using inv2 ph2 step1 step2 by simp
qed

lemma fail_exit:
  assumes opts: "maxConsecutiveFailures opts = Some m"
    and inv: "failInv m s" and loop: "phase s = Looping" and many: "m \<le> int (length (results s))"
  shows "\<exists>res. returned (steadyStep opts ps t0 s (Iterate now1 now2)) = Some res
     \<and> stopReason_res res = ConsecutiveFailures
     \<and> consecutiveFailuresAtStop res = Some (length (results s))
     \<and> results_res res = results s"
proof -
  have stop: "shouldStop s" "stopReason s = ConsecutiveFailures"
    "consecutiveFailures s = length (results s)"
    using inv many unfolding failInv_def by auto
  have "steadyStep opts ps t0 s (Iterate now1 now2) = loopIteration opts ps t0 now1 now2 s"
    using loop by (simp add: steadyStep_def)
  also have "\<dots> = finish s"
    using stop by (simp add: loopIteration_def afterLoop_def)
  finally show ?thesis
    using stop by (simp add: finish_def)
qed

lemma fail_liveness:
  assumes opts: "maxConsecutiveFailures opts = Some m" "0 < m" "maxDuration opts = None"
    "0 < rate opts"
  shows "failInv m s \<Longrightarrow>
     \<exists>later. allFail later \<and> returned (foldl (steadyStep opts ps t0) s later) \<noteq> None"
proof (induction "nat (m - int (length (results s)))" arbitrary: s rule: less_induct)
  case less
  have ph: "phase s = Looping \<or> phase s = Returned"
    using less.prems unfolding failInv_def by blast
  show ?case
  proof (cases "phase s = Returned")
    case True
    then have "returned s \<noteq> None"
      using less.prems unfolding failInv_def by auto
    then have "allFail [] \<and> returned (foldl (steadyStep opts ps t0) s []) \<noteq> None"
      by (simp add: allFail_def)
    then show ?thesis by blast
  next
    case False
    then have loop: "phase s = Looping" using ph by blast
    show ?thesis
    proof (cases "m \<le> int (length (results s))")
      case True
      from fail_exit [OF opts(1) less.prems loop True, of ps t0 0 0]
      have "allFail [Iterate 0 0]
          \<and> returned (foldl (steadyStep opts ps t0) s [Iterate 0 0]) \<noteq> None"
        by (auto simp: allFail_def)
      then show ?thesis by blast
    next
      case few: False
      let ?r = "\<lparr>index = 0, startTime = t0, endTime = t0, duration = 0, success = False,
                 error = Some [], tacoSigningTimeMs = None\<rparr>"
      let ?round = "[Iterate t0 t0, Resolve (nextRequestIndex s) ?r]"
      from fail_round [OF opts less.prems loop, of ?r ps t0] few
      obtain s' where s': "foldl (steadyStep opts ps t0) s ?round = s'" "failInv m s'"
        "length (results s') = Suc (length (results s))"
        by auto
      have "nat (m - int (length (results s'))) < nat (m - int (length (results s)))"
        using few s'(3) by simp
      from less.hyps [OF this s'(2)]
      obtain later where later: "allFail later"
        "returned (foldl (steadyStep opts ps t0) s' later) \<noteq> None"
        by blast
      have "allFail (?round @ later)"
        using later(1) by (simp add: allFail_def)
      moreover have "foldl (steadyStep opts ps t0) s (?round @ later)
          = foldl (steadyStep opts ps t0) s' later"
        using s'(1) by (simp only: foldl_append)
      ultimately show ?thesis using later(2) by metis
    qed
  qed
qed

text \<open>
  Claim C2, as amended. With \<^verbatim>\<open>maxConsecutiveFailures = 3\<close>, no \<^verbatim>\<open>maxDuration\<close> and
  a backend whose every request fails, a run that returns has the stop reason
  \<^verbatim>\<open>consecutive-failures\<close>, and \<^verbatim>\<open>consecutiveFailuresAtStop\<close> is the number of
  recorded results, which is at least three; the summary is built without an exception
  and its \<^verbatim>\<open>requests.total\<close> is that number. A run that has not returned is in its
  loop, and it does not stop while fewer than three results are recorded. Once three or
  more are recorded, the next iteration of the loop returns, and both numbers are the
  number of results recorded by then: exactly three if no further request has failed in
  between. At a positive rate the run does stop: every schedule has a continuation, of
  failures only, after which the function has returned.
\<close>

theorem steady_consecutive_failures:
  assumes "maxConsecutiveFailures opts = Some 3" "maxDuration opts = None" "allFail events"
  shows "(\<forall>res. returned (runSteadyMode opts ps t0 events) = Some res \<longrightarrow>
            stopReason_res res = ConsecutiveFailures
          \<and> consecutiveFailuresAtStop res = Some (length (results_res res))
          \<and> 3 \<le> length (results_res res)
          \<and> (\<exists>summary. steadySummary engine je (rate opts) res = Inr summary
                \<and> total (requests summary) = length (results_res res)
                \<and> stopReason_run summary = Some ConsecutiveFailures
                \<and> consecutiveFailuresAtStop_run summary = Some (length (results_res res))))
       \<and> (returned (runSteadyMode opts ps t0 events) = None \<longrightarrow>
            phase (runSteadyMode opts ps t0 events) = Looping)
       \<and> (phase (runSteadyMode opts ps t0 events) = Looping
            \<and> length (results (runSteadyMode opts ps t0 events)) < 3 \<longrightarrow>
            \<not> shouldStop (runSteadyMode opts ps t0 events))
       \<and> (phase (runSteadyMode opts ps t0 events) = Looping
            \<and> 3 \<le> length (results (runSteadyMode opts ps t0 events)) \<longrightarrow>
           (\<exists>res. returned (runSteadyMode opts ps t0 (events @ [Iterate now1 now2])) = Some res
              \<and> stopReason_res res = ConsecutiveFailures
              \<and> consecutiveFailuresAtStop res
                  = Some (length (results (runSteadyMode opts ps t0 events)))
              \<and> results_res res = results (runSteadyMode opts ps t0 events)))
       \<and> (0 < rate opts \<longrightarrow>
            (\<exists>later. allFail later
               \<and> returned (runSteadyMode opts ps t0 (events @ later)) \<noteq> None))"
proof (intro conjI allI impI)
  let ?s = "runSteadyMode opts ps t0 events"
  have inv: "failInv 3 ?s"
    using failInv_run [OF assms(1) _ assms(2,3)] by simp
  {
    fix res
    assume ret: "returned ?s = Some res"
    then have "phase ?s = Returned"
      using inv unfolding failInv_def by auto
    then have props: "stopReason_res res = ConsecutiveFailures"
      "consecutiveFailuresAtStop res = Some (length (results_res res))"
      "3 \<le> length (results_res res)"
      using inv ret unfolding failInv_def by auto
    show "stopReason_res res = ConsecutiveFailures" by (rule props(1))
    show "consecutiveFailuresAtStop res = Some (length (results_res res))" by (rule props(2))
    show "3 \<le> length (results_res res)" by (rule props(3))
    have "results_res res \<noteq> []" using props(3) by auto
    from steadySummary_ok [OF this, of engine je "rate opts"] props
    show "\<exists>summary. steadySummary engine je (rate opts) res = Inr summary
        \<and> total (requests summary) = length (results_res res)
        \<and> stopReason_run summary = Some ConsecutiveFailures
        \<and> consecutiveFailuresAtStop_run summary = Some (length (results_res res))"
      by auto
  }
  {
    assume "returned ?s = None"
    then show "phase ?s = Looping"
      using inv unfolding failInv_def by auto
  }
  {
    assume "phase ?s = Looping \<and> length (results ?s) < 3"
    then show "\<not> shouldStop ?s"
      using inv unfolding failInv_def by auto
  }
  {
    assume three: "phase ?s = Looping \<and> 3 \<le> length (results ?s)"
    then have many: "3 \<le> int (length (results ?s))" by simp
    have "runSteadyMode opts ps t0 (events @ [Iterate now1 now2])
        = steadyStep opts ps t0 ?s (Iterate now1 now2)"
      by (simp add: runSteadyMode_def)
    then show "\<exists>res. returned (runSteadyMode opts ps t0 (events @ [Iterate now1 now2])) = Some res
        \<and> stopReason_res res = ConsecutiveFailures
        \<and> consecutiveFailuresAtStop res = Some (length (results ?s))
        \<and> results_res res = results ?s"
      using fail_exit [OF assms(1) inv _ many, of ps t0 now1 now2] three by simp
  }
  assume "0 < rate opts"
  from fail_liveness [OF assms(1) _ assms(2) this inv, of ps t0]
  obtain later where "allFail later"
    "returned (foldl (steadyStep opts ps t0) ?s later) \<noteq> None"
    by auto
  then show "\<exists>later. allFail later
      \<and> returned (runSteadyMode opts ps t0 (events @ later)) \<noteq> None"
    by (auto simp: runSteadyMode_def)
qed

lemma pacedFailures_run:
  "\<exists>res. returned (runSteadyMode stopAfter3 [''a'', ''b''] 0 pacedFailures) = Some res
     \<and> length (results_res res) = 3"
  by (simp add: steady_eval stopAfter3_def pacedFailures_def failedAt_def)

theorem steady_consecutive_failures_witness:
  "maxConsecutiveFailures stopAfter3 = Some 3 \<and> maxDuration stopAfter3 = None
   \<and> allFail pacedFailures \<and> 0 < rate stopAfter3
   \<and> (\<exists>res. returned (runSteadyMode stopAfter3 [''a'', ''b''] 0 pacedFailures) = Some res
         \<and> stopReason_res res = ConsecutiveFailures
         \<and> consecutiveFailuresAtStop res = Some 3
         \<and> length (results_res res) = 3)
   \<and> phase (runSteadyMode stopAfter3 [''a'', ''b''] 0 (butlast pacedFailures)) = Looping
   \<and> length (results (runSteadyMode stopAfter3 [''a'', ''b''] 0 (butlast pacedFailures))) = 3
   \<and> (\<exists>later. allFail later
         \<and> returned (runSteadyMode stopAfter3 [''a'', ''b''] 0 (butlast pacedFailures @ later))
             \<noteq> None)"
proof -
  have h: "maxConsecutiveFailures stopAfter3 = Some 3" "maxDuration stopAfter3 = None"
    "allFail pacedFailures" "0 < rate stopAfter3" "allFail (butlast pacedFailures)"
    by (simp_all add: stopAfter3_def allFail_def pacedFailures_def failedAt_def)
  from pacedFailures_run obtain res where
    res: "returned (runSteadyMode stopAfter3 [''a'', ''b''] 0 pacedFailures) = Some res"
      "length (results_res res) = 3"
    by blast
  from steady_consecutive_failures [OF h(1,2,3), of "[''a'', ''b'']" 0] res
  have a: "stopReason_res res = ConsecutiveFailures"
    "consecutiveFailuresAtStop res = Some 3"
    by auto
  have b: "phase (runSteadyMode stopAfter3 [''a'', ''b''] 0 (butlast pacedFailures)) = Looping"
    "length (results (runSteadyMode stopAfter3 [''a'', ''b''] 0 (butlast pacedFailures))) = 3"
    by (simp_all add: steady_eval stopAfter3_def pacedFailures_def failedAt_def)
  from steady_consecutive_failures [OF h(1,2,5), of "[''a'', ''b'']" 0] h(4)
  have c: "\<exists>later. allFail later
     \<and> returned (runSteadyMode stopAfter3 [''a'', ''b''] 0 (butlast pacedFailures @ later)) \<noteq> None"
    by blast
  from h(1-4) res a b c show ?thesis by blast
qed

text \<open>
  The numbers are not always three: when a fourth request fails before the loop wakes
  from its pacing sleep, it is recorded and counted as well.
\<close>

theorem steady_consecutive_failures_counterexample:
  "maxConsecutiveFailures stopAfter3 = Some 3 \<and> allFail burstOfFailures
   \<and> (\<exists>res summary.
         returned (runSteadyMode stopAfter3 [''a'', ''b''] 0 burstOfFailures) = Some res
         \<and> stopReason_res res = ConsecutiveFailures
         \<and> consecutiveFailuresAtStop res = Some 4
         \<and> steadySummary correctlyRounded (\<lambda>_. None) (rate stopAfter3) res = Inr summary
         \<and> total (requests summary) = 4)"
proof -
  have "\<exists>res. returned (runSteadyMode stopAfter3 [''a'', ''b''] 0 burstOfFailures) = Some res
     \<and> stopReason_res res = ConsecutiveFailures
     \<and> consecutiveFailuresAtStop res = Some 4 \<and> length (results_res res) = 4"
    by (simp add: steady_eval stopAfter3_def burstOfFailures_def failedAt_def)
  then obtain res where
    res: "returned (runSteadyMode stopAfter3 [''a'', ''b''] 0 burstOfFailures) = Some res"
      "stopReason_res res = ConsecutiveFailures" "consecutiveFailuresAtStop res = Some 4"
      "length (results_res res) = 4"
    by blast
  then have "results_res res \<noteq> []" by auto
  from steadySummary_ok [OF this, of correctlyRounded "\<lambda>_. None" "rate stopAfter3"] res
  obtain summary where "steadySummary correctlyRounded (\<lambda>_. None) (rate stopAfter3) res = Inr summary"
    "total (requests summary) = 4"
    by auto
  moreover have "maxConsecutiveFailures stopAfter3 = Some 3" "allFail burstOfFailures"
    by (simp_all add: stopAfter3_def allFail_def burstOfFailures_def failedAt_def)
  ultimately show ?thesis using res by blast
qed

lemma onResolve_bounded_fields:
  assumes "maxConsecutiveFailures opts = None"
  shows "shouldStop (onResolve opts t0 i raw s) = False"
    "stopReason (onResolve opts t0 i raw s) = stopReason s"
  using assms by (simp_all add: onResolve_def processResult_def Let_def)

lemma length_removeAll_distinct:
  "distinct xs \<Longrightarrow> x \<in> set xs \<Longrightarrow> Suc (length (removeAll x xs)) = length xs"
  by (induction xs) auto

lemma boundedInv_onResolve:
  assumes "maxConsecutiveFailures opts = None" "boundedInv N s" "i \<in> set (pendingRequests s)"
    "phase s = Looping"
  shows "boundedInv N (onResolve opts t0 i raw s)"
  using assms length_removeAll_distinct [of "pendingRequests s" i]
  unfolding boundedInv_def
  by (auto simp: onResolve_bounded_fields onResolve_fields distinct_removeAll)

lemma boundedInv_loopIteration:
  assumes "totalRequests opts = Some N" "maxDuration opts = None" "boundedInv N s"
    "steadyInv s" "phase s = Looping"
  shows "boundedInv N (loopIteration opts ps t0 now1 now2 s)"
proof (cases "N \<le> int (nextRequestIndex s)")
  case True
  then have "loopIteration opts ps t0 now1 now2 s = afterLoop s"
    using assms by (simp add: loopIteration_def boundedInv_def)
  then show ?thesis
    using assms(3,5) True unfolding boundedInv_def
    by (auto simp: afterLoop_def finish_def)
next
  case False
  have fresh: "nextRequestIndex s \<notin> set (pendingRequests s)"
    using assms(4) unfolding steadyInv_def by auto
  show ?thesis
    using False fresh assms unfolding boundedInv_def
    by (simp add: loopIteration_def Let_def)
qed

lemma boundedInv_resolve_draining:
  assumes "maxConsecutiveFailures opts = None" "boundedInv N s" "steadyInv s"
    "i \<in> set (pendingRequests s)" "phase s = Draining remaining"
  shows "boundedInv N
     (let s1 = onResolve opts t0 i raw s
      in if \<forall>j \<in> set remaining. j \<notin> set (pendingRequests s1)
         then finish (drainRemaining opts t0 remaining s1) else s1)"
proof -
  let ?s1 = "onResolve opts t0 i raw s"
  have inv1: "steadyInv ?s1" using assms(3,4) by (rule steadyInv_onResolve)
  have facts: "\<not> shouldStop s" "stopReason s = Completed"
    "length (dispatched s) = nextRequestIndex s" "int (nextRequestIndex s) \<le> max 0 N"
    "distinct (pendingRequests s)"
    "length (results s) + length (pendingRequests s) = nextRequestIndex s"
    "N \<le> int (nextRequestIndex s)" "returned s = None"
    "set (pendingRequests s) \<subseteq> set remaining"
    using assms(2,5) unfolding boundedInv_def by simp_all
  have len: "Suc (length (removeAll i (pendingRequests s))) = length (pendingRequests s)"
    using facts(5) assms(4) by (rule length_removeAll_distinct)
  have f1: "\<not> shouldStop ?s1" "stopReason ?s1 = Completed"
    "length (dispatched ?s1) = nextRequestIndex ?s1" "int (nextRequestIndex ?s1) \<le> max 0 N"
    "distinct (pendingRequests ?s1)"
    "length (results ?s1) + length (pendingRequests ?s1) = nextRequestIndex ?s1"
    "N \<le> int (nextRequestIndex ?s1)" "returned ?s1 = None"
    "set (pendingRequests ?s1) \<subseteq> set remaining" "phase ?s1 = Draining remaining"
    using facts len assms(5)
    by (auto simp: onResolve_fields onResolve_bounded_fields [OF assms(1)] distinct_removeAll)
  show ?thesis
  proof (cases "\<forall>j \<in> set remaining. j \<notin> set (pendingRequests ?s1)")
    case True
    then have none: "x \<notin> set (pendingRequests ?s1)" for x
      using f1(9) by blast
    have empty: "pendingRequests ?s1 = []"
    proof (cases "pendingRequests ?s1")
      case Nil
      then show ?thesis .
    next
      case (Cons a rest)
      then have "a \<in> set (pendingRequests ?s1)" by simp
      then show ?thesis using none by blast
    qed
    have "boundedInv N (finish ?s1)"
      unfolding boundedInv_def using f1 empty by (simp add: finish_def)
    then show ?thesis
      unfolding Let_def by (simp only: if_P [OF True] drainRemaining_id [OF inv1])
  next
    case False
    then have "pendingRequests ?s1 \<noteq> []" by auto
    then have "boundedInv N ?s1"
      unfolding boundedInv_def using f1 by simp
    then show ?thesis
      unfolding Let_def by (simp only: if_not_P [OF False])
  qed
qed

lemma boundedInv_step:
  assumes "totalRequests opts = Some N" "maxDuration opts = None"
    "maxConsecutiveFailures opts = None" "boundedInv N s" "steadyInv s"
  shows "boundedInv N (steadyStep opts ps t0 s ev)"
proof (cases ev)
  case (Iterate now1 now2)
  then show ?thesis
    using assms boundedInv_loopIteration [of opts N s ps t0 now1 now2]
    by (auto simp: steadyStep_def)
next
  case (Resolve i raw)
  show ?thesis
  proof (cases "i \<notin> set (pendingRequests s) \<or> (phase s = Looping \<and> \<not> sleeping s)")
    case True
    then show ?thesis using assms(4) Resolve by (simp add: steadyStep_def)
  next
    case False
    then have pend: "i \<in> set (pendingRequests s)" by simp
    show ?thesis
    proof (cases "phase s")
      case Looping
      have "steadyStep opts ps t0 s ev = onResolve opts t0 i raw s"
        using False Resolve Looping by (simp add: steadyStep_def Let_def onResolve_fields)
      then show ?thesis
        using boundedInv_onResolve [OF assms(3,4) pend Looping, of t0 raw] by simp
    next
      case (Draining remaining)
      have "steadyStep opts ps t0 s ev =
         (let s1 = onResolve opts t0 i raw s
          in if \<forall>j \<in> set remaining. j \<notin> set (pendingRequests s1)
             then finish (drainRemaining opts t0 remaining s1) else s1)"
        using False Resolve Draining by (simp add: steadyStep_def Let_def onResolve_fields)
      then show ?thesis
        using boundedInv_resolve_draining [OF assms(3,4,5) pend Draining, of t0 raw] by simp
    next
      case Returned
      then have "pendingRequests s = []"
        using assms(4) unfolding boundedInv_def by simp
      then show ?thesis using pend by simp
    qed
  qed
qed

lemma bounded_foldl:
  assumes "totalRequests opts = Some N" "maxDuration opts = None"
    "maxConsecutiveFailures opts = None"
  shows "boundedInv N s \<Longrightarrow> steadyInv s
    \<Longrightarrow> boundedInv N (foldl (steadyStep opts ps t0) s events)"
proof (induction events arbitrary: s)
  case Nil
  then show ?case by simp
next
  case (Cons ev events)
  show ?case
    using Cons.IH [OF boundedInv_step [OF assms Cons.prems] steadyInv_step [OF Cons.prems(2)]]
    by simp
qed

lemma bounded_run:
  assumes "totalRequests opts = Some N" "maxDuration opts = None"
    "maxConsecutiveFailures opts = None"
  shows "boundedInv N (runSteadyMode opts ps t0 events)"
proof -
  have "boundedInv N (initialState :: 'a SteadyState)"
    by (simp add: boundedInv_def initialState_def)
  then show ?thesis
    unfolding runSteadyMode_def
    by (rule bounded_foldl [OF assms _ steadyInv_initial])
qed

lemma processResult_stop_fields:
  "fst (processResult opts t0 r s) \<Longrightarrow>
     stopReason (snd (processResult opts t0 r s)) = ConsecutiveFailures"
  by (auto simp: processResult_def Let_def split: option.splits if_splits)

lemma stopInv_onResolve: "stopInv s \<Longrightarrow> stopInv (onResolve opts t0 i raw s)"
  unfolding stopInv_def
  by (auto simp: onResolve_fields)
    (auto simp: onResolve_def Let_def case_prod_unfold dest: processResult_stop_fields)

lemma stopInv_loopIteration:
  assumes "totalRequests opts = None" "stopInv s"
  shows "stopInv (loopIteration opts ps t0 now1 now2 s)"
  using assms unfolding stopInv_def
  by (auto simp: loopIteration_def afterLoop_def finish_def Let_def split: option.splits)

lemma stopInv_step:
  assumes "totalRequests opts = None" "stopInv s"
  shows "stopInv (steadyStep opts ps t0 s ev)"
proof (cases ev)
  case (Iterate now1 now2)
  then show ?thesis using assms by (simp add: steadyStep_def stopInv_loopIteration)
next
  case (Resolve i raw)
  have "stopInv (onResolve opts t0 i raw s)" using assms(2) by (rule stopInv_onResolve)
  then show ?thesis
    using Resolve assms(2)
    by (auto simp: steadyStep_def Let_def stopInv_def split: Phase.split)
qed

lemma stopInv_run:
  assumes "totalRequests opts = None"
  shows "stopInv (runSteadyMode opts ps t0 events)"
proof -
  have "stopInv s \<Longrightarrow> stopInv (foldl (steadyStep opts ps t0) s events)" for s :: "'a SteadyState"
    by (induction events arbitrary: s) (simp_all add: stopInv_step [OF assms])
  moreover have "stopInv (initialState :: 'a SteadyState)"
    by (simp add: stopInv_def initialState_def)
  ultimately show ?thesis unfolding runSteadyMode_def by blast
qed

lemma steadyStep_sizing_irrelevant:
  assumes "hasStopConditions opts"
  shows "steadyStep (opts\<lparr>requestCount := rc, duration_steady := d\<rparr>) ps t0 s ev
     = steadyStep opts ps t0 s ev"
proof -
  let ?opts = "opts\<lparr>requestCount := rc, duration_steady := d\<rparr>"
  have tr: "totalRequests ?opts = totalRequests opts"
    using assms by (simp add: totalRequests_def hasStopConditions_def)
  have pr: "(processResult ?opts :: int \<Rightarrow> RequestResult \<Rightarrow> 'a SteadyState \<Rightarrow> _)
      = processResult opts"
    by (intro ext) (simp add: processResult_def)
  have onr: "(onResolve ?opts :: int \<Rightarrow> nat \<Rightarrow> RequestResult \<Rightarrow> 'a SteadyState \<Rightarrow> _)
      = onResolve opts"
    unfolding onResolve_def pr by (rule refl)
  have dr: "(drainRemaining ?opts :: int \<Rightarrow> nat list \<Rightarrow> 'a SteadyState \<Rightarrow> _)
      = drainRemaining opts"
    unfolding drainRemaining_def pr by (rule refl)
  have li: "(loopIteration ?opts :: 'a list \<Rightarrow> int \<Rightarrow> int \<Rightarrow> int \<Rightarrow> 'a SteadyState \<Rightarrow> _)
      = loopIteration opts"
    by (intro ext) (simp add: loopIteration_def tr intervalMs_def)
  show ?thesis
    unfolding steadyStep_def onr dr li by (rule refl)
qed

lemma dispatchInv_processResult:
  "dispatchInv ps s \<Longrightarrow> dispatchInv ps (snd (processResult opts t0 r s))"
  by (simp add: dispatchInv_def processResult_fields)

lemma dispatchInv_onResolve: "dispatchInv ps s \<Longrightarrow> dispatchInv ps (onResolve opts t0 i raw s)"
  by (simp add: dispatchInv_def onResolve_fields)

lemma dispatchInv_finish: "dispatchInv ps s \<Longrightarrow> dispatchInv ps (finish s)"
  by (simp add: dispatchInv_def finish_def)

lemma dispatchInv_drainRemaining:
  "dispatchInv ps s \<Longrightarrow> dispatchInv ps (drainRemaining opts t0 remaining s)"
  unfolding drainRemaining_def
  by (induction remaining arbitrary: s)
    (simp_all add: dispatchInv_processResult split: option.split)

lemma dispatchInv_afterLoop: "dispatchInv ps s \<Longrightarrow> dispatchInv ps (afterLoop s)"
  unfolding afterLoop_def
  by (simp add: dispatchInv_finish) (simp add: dispatchInv_def)

lemma dispatchInv_loopIteration:
  assumes "dispatchInv ps s"
  shows "dispatchInv ps (loopIteration opts ps t0 now1 now2 s)"
proof -
  have stop: "dispatchInv ps (s\<lparr>stopReason := Duration\<rparr>)"
    using assms by (simp add: dispatchInv_def)
  have disp: "dispatchInv ps
     (s\<lparr>payloadIndex := payloadIndex s + 1,
        nextRequestIndex := nextRequestIndex s + 1,
        dispatched := dispatched s @ [(nextRequestIndex s, payloadAt ps (payloadIndex s))],
        pendingRequests := pend, sleeping := b\<rparr>)" for pend b
    using assms by (simp add: dispatchInv_def)
  show ?thesis
    unfolding loopIteration_def Let_def
    using assms stop disp by (simp add: dispatchInv_afterLoop)
qed

lemma dispatchInv_step:
  assumes "dispatchInv ps s"
  shows "dispatchInv ps (steadyStep opts ps t0 s ev)"
proof (cases ev)
  case (Iterate now1 now2)
  then show ?thesis
    using assms by (simp add: steadyStep_def dispatchInv_loopIteration)
next
  case (Resolve i raw)
  have "dispatchInv ps (onResolve opts t0 i raw s)"
    using assms by (rule dispatchInv_onResolve)
  then show ?thesis
    using Resolve assms
    by (simp add: steadyStep_def Let_def dispatchInv_finish dispatchInv_drainRemaining
        split: Phase.split)
qed

lemma dispatchInv_run: "dispatchInv ps (runSteadyMode opts ps t0 events)"
proof -
  have "dispatchInv ps s \<Longrightarrow> dispatchInv ps (foldl (steadyStep opts ps t0) s events)"
    for s :: "'a SteadyState"
    by (induction events arbitrary: s) (simp_all add: dispatchInv_step)
  moreover have "dispatchInv ps (initialState :: 'a SteadyState)"
    by (simp add: dispatchInv_def initialState_def)
  ultimately show ?thesis unfolding runSteadyMode_def by blast
qed

lemma looping_iterate:
  assumes "totalRequests opts = Some N" "maxDuration opts = None" "boundedInv N s"
    "phase s = Looping"
  shows "N \<le> int (nextRequestIndex s) \<Longrightarrow>
           phase (steadyStep opts ps t0 s (Iterate now1 now2)) \<noteq> Looping"
    "\<not> N \<le> int (nextRequestIndex s) \<Longrightarrow>
           phase (steadyStep opts ps t0 s (Iterate now1 now2)) = Looping
         \<and> nextRequestIndex (steadyStep opts ps t0 s (Iterate now1 now2))
             = Suc (nextRequestIndex s)"
proof -
  have ns: "\<not> shouldStop s" using assms(3) unfolding boundedInv_def by simp
  {
    assume "N \<le> int (nextRequestIndex s)"
    then have "steadyStep opts ps t0 s (Iterate now1 now2) = afterLoop s"
      using assms ns by (simp add: steadyStep_def loopIteration_def)
    then show "phase (steadyStep opts ps t0 s (Iterate now1 now2)) \<noteq> Looping"
      by (simp add: afterLoop_def finish_def)
  }
  {
    assume "\<not> N \<le> int (nextRequestIndex s)"
    then show "phase (steadyStep opts ps t0 s (Iterate now1 now2)) = Looping
         \<and> nextRequestIndex (steadyStep opts ps t0 s (Iterate now1 now2))
             = Suc (nextRequestIndex s)"
      using assms ns by (simp add: steadyStep_def loopIteration_def Let_def)
  }
qed

lemma draining_resolve:
  assumes "phase s = Draining remaining" "i \<in> set (pendingRequests s)"
    "distinct (pendingRequests s)"
  shows "returned (steadyStep opts ps t0 s (Resolve i raw)) \<noteq> None
     \<or> (phase (steadyStep opts ps t0 s (Resolve i raw)) = Draining remaining
        \<and> length (pendingRequests (steadyStep opts ps t0 s (Resolve i raw)))
            < length (pendingRequests s))"
proof -
  let ?s1 = "onResolve opts t0 i raw s"
  have eq: "steadyStep opts ps t0 s (Resolve i raw) =
     (if \<forall>j \<in> set remaining. j \<notin> set (pendingRequests ?s1)
      then finish (drainRemaining opts t0 remaining ?s1) else ?s1)"
    using assms(1,2) by (simp add: steadyStep_def Let_def onResolve_fields)
  have len: "Suc (length (removeAll i (pendingRequests s))) = length (pendingRequests s)"
    using assms(3,2) by (rule length_removeAll_distinct)
  show ?thesis
  proof (cases "\<forall>j \<in> set remaining. j \<notin> set (pendingRequests ?s1)")
    case True
    then have "steadyStep opts ps t0 s (Resolve i raw)
        = finish (drainRemaining opts t0 remaining ?s1)"
      unfolding eq by (simp only: if_P if_True)
    then show ?thesis by (simp add: finish_def)
  next
    case False
    then have "steadyStep opts ps t0 s (Resolve i raw) = ?s1"
      unfolding eq by (simp only: if_not_P if_False)
    then show ?thesis
      using assms(1) len by (simp add: onResolve_fields)
  qed
qed

lemma bounded_drain_liveness:
  assumes opts: "totalRequests opts = Some N" "maxDuration opts = None"
    "maxConsecutiveFailures opts = None"
  shows "boundedInv N s \<Longrightarrow> steadyInv s \<Longrightarrow> phase s \<noteq> Looping \<Longrightarrow>
     \<exists>later. returned (foldl (steadyStep opts ps t0) s later) \<noteq> None"
proof (induction "length (pendingRequests s)" arbitrary: s rule: less_induct)
  case less
  show ?case
  proof (cases "phase s")
    case Looping
    then show ?thesis using less.prems(3) by simp
  next
    case Returned
    then have "returned (foldl (steadyStep opts ps t0) s []) \<noteq> None"
      using less.prems(1) unfolding boundedInv_def by auto
    then show ?thesis by blast
  next
    case (Draining remaining)
    then have ne: "pendingRequests s \<noteq> []" and dist: "distinct (pendingRequests s)"
      using less.prems(1) unfolding boundedInv_def by auto
    then obtain i where i: "i \<in> set (pendingRequests s)"
      by (cases "pendingRequests s") auto
    let ?r = "\<lparr>index = 0, startTime = t0, endTime = t0, duration = 0, success = True,
               error = None, tacoSigningTimeMs = None\<rparr>"
    let ?s' = "steadyStep opts ps t0 s (Resolve i ?r)"
    have inv': "boundedInv N ?s'" "steadyInv ?s'"
      using boundedInv_step [OF opts less.prems(1,2)] steadyInv_step [OF less.prems(2)]
      by simp_all
    from draining_resolve [OF Draining i dist, of opts ps t0 ?r]
    show ?thesis
    proof
      assume "returned ?s' \<noteq> None"
      then have "returned (foldl (steadyStep opts ps t0) s [Resolve i ?r]) \<noteq> None"
        by simp
      then show ?thesis by blast
    next
      assume a: "phase ?s' = Draining remaining
        \<and> length (pendingRequests ?s') < length (pendingRequests s)"
      then have "phase ?s' \<noteq> Looping" by simp
      from less.hyps [OF _ inv' this] a
      obtain later where "returned (foldl (steadyStep opts ps t0) ?s' later) \<noteq> None"
        by blast
      then have "returned (foldl (steadyStep opts ps t0) s (Resolve i ?r # later)) \<noteq> None"
        by simp
      then show ?thesis by blast
    qed
  qed
qed

lemma bounded_liveness:
  assumes opts: "totalRequests opts = Some N" "maxDuration opts = None"
    "maxConsecutiveFailures opts = None"
  shows "boundedInv N s \<Longrightarrow> steadyInv s \<Longrightarrow>
     \<exists>later. returned (foldl (steadyStep opts ps t0) s later) \<noteq> None"
proof (induction "nat (N - int (nextRequestIndex s))" arbitrary: s rule: less_induct)
  case less
  show ?case
  proof (cases "phase s = Looping")
    case False
    then show ?thesis
      using bounded_drain_liveness [OF opts less.prems] by blast
  next
    case True
    let ?s' = "steadyStep opts ps t0 s (Iterate t0 t0)"
    have inv': "boundedInv N ?s'" "steadyInv ?s'"
      using boundedInv_step [OF opts less.prems(1,2)] steadyInv_step [OF less.prems(2)]
      by simp_all
    have "\<exists>later. returned (foldl (steadyStep opts ps t0) ?s' later) \<noteq> None"
    proof (cases "N \<le> int (nextRequestIndex s)")
      case True
      have "phase ?s' \<noteq> Looping"
        using looping_iterate(1) [OF opts(1,2) less.prems(1) \<open>phase s = Looping\<close> True] .
      then show ?thesis
        using bounded_drain_liveness [OF opts inv'] by blast
    next
      case False
      have "nextRequestIndex ?s' = Suc (nextRequestIndex s)"
        using looping_iterate(2) [OF opts(1,2) less.prems(1) \<open>phase s = Looping\<close> False]
        by simp
      then have "nat (N - int (nextRequestIndex ?s')) < nat (N - int (nextRequestIndex s))"
        using False by simp
      from less.hyps [OF this inv'] show ?thesis .
    qed
    then obtain later where "returned (foldl (steadyStep opts ps t0) ?s' later) \<noteq> None"
      by blast
    then have "returned (foldl (steadyStep opts ps t0) s (Iterate t0 t0 # later)) \<noteq> None"
      by simp
    then show ?thesis by blast
  qed
qed

lemma fl_15_8: "fl (15 / 8) = 15 / 8"
  using fl_dyadic [of 15 3] by simp

lemma fl_7_10: "fl (7 / 10) = 6305039478318694 / 2 ^ 53"
proof -
  have "fl (7 / 10) = 2 powi (- 1 - 52) * of_int (rne (7 / 10 / 2 powi (- 1 - 52)))"
    by (rule fl_eval) (simp_all add: power_int_minus)
  also have "7 / 10 / 2 powi (- 1 - 52) = (31525197391593472 / 5 :: real)"
    by (simp add: power_int_minus)
  also have "rne (31525197391593472 / 5) = 6305039478318694"
    by (simp add: rne_def Let_def)
  finally show ?thesis by (simp add: power_int_minus)
qed

lemma fl_60_times_7_10: "fl (60 * fl (7 / 10)) = 42"
proof -
  have "fl (60 * fl (7 / 10)) = fl (47287796087390205 / 2 ^ 50)"
    by (simp add: fl_7_10)
  also have "\<dots> = 2 powi (5 - 52) * of_int (rne (47287796087390205 / 2 ^ 50 / 2 powi (5 - 52)))"
    by (rule fl_eval) (simp_all add: power_int_minus)
  also have "47287796087390205 / 2 ^ 50 / 2 powi (5 - 52) = (47287796087390205 / 8 :: real)"
    by (simp add: power_int_minus)
  also have "rne (47287796087390205 / 8) = 5910974510923776"
    by (simp add: rne_def Let_def)
  finally show ?thesis by (simp add: power_int_minus)
qed

text \<open>
  The product is rounded before the floor is taken: at \<^verbatim>\<open>--rate=0.7\<close> for 60 seconds
  the run is sized 42, although the double nearest to 0.7 is below 0.7.
\<close>

lemma totalRequests_rounds:
  "totalRequests \<lparr>rate = fl (7 / 10), duration_steady = Some 60, requestCount = None,
      maxDuration = None, maxConsecutiveFailures = None\<rparr> = Some 42
   \<and> \<lfloor>60 * fl (7 / 10)\<rfloor> = 41"
  by (simp add: totalRequests_def hasStopConditions_def fl_60_times_7_10)
    (simp add: fl_7_10)

text \<open>
  Claim C3, as amended. Without stop conditions the run never dispatches more than its
  size, a run that returns has dispatched exactly that many requests, awaited and
  recorded them all and has the stop reason \<^verbatim>\<open>completed\<close>, and every schedule has a
  continuation after which the function has returned. The size is \<^verbatim>\<open>requestCount\<close>
  when the count is supplied (none when it is negative), and otherwise
  \<open>\<lfloor>d \<times> rate\<rfloor>\<close> of the product computed in doubles, where \<open>d\<close> is the duration,
  or 60 when the duration is absent or zero. With a stop condition the run does not
  depend on \<^verbatim>\<open>requestCount\<close> or \<^verbatim>\<open>duration\<close> at all, and it returns only with the
  stop reason \<^verbatim>\<open>duration\<close> or \<^verbatim>\<open>consecutive-failures\<close>.
\<close>

theorem steady_sizing:
  "(\<not> hasStopConditions opts \<longrightarrow>
      length (dispatched (runSteadyMode opts ps t0 events))
        \<le> nat (case requestCount opts of
                  Some n \<Rightarrow> n
                | None \<Rightarrow>
                    \<lfloor>fl ((case duration_steady opts of
                              Some d \<Rightarrow> if d = 0 then 60 else d
                            | None \<Rightarrow> 60) * rate opts)\<rfloor>)
    \<and> (\<forall>res. returned (runSteadyMode opts ps t0 events) = Some res \<longrightarrow>
         stopReason_res res = Completed
       \<and> length (dispatched (runSteadyMode opts ps t0 events))
           = nat (case requestCount opts of
                    Some n \<Rightarrow> n
                  | None \<Rightarrow>
                      \<lfloor>fl ((case duration_steady opts of
                                Some d \<Rightarrow> if d = 0 then 60 else d
                              | None \<Rightarrow> 60) * rate opts)\<rfloor>)
       \<and> length (results_res res) = length (dispatched (runSteadyMode opts ps t0 events)))
    \<and> (\<exists>later. returned (runSteadyMode opts ps t0 (events @ later)) \<noteq> None))
   \<and> (hasStopConditions opts \<longrightarrow>
        runSteadyMode (opts\<lparr>requestCount := rc, duration_steady := d\<rparr>) ps t0 events
          = runSteadyMode opts ps t0 events
      \<and> (\<forall>res. returned (runSteadyMode opts ps t0 events) = Some res \<longrightarrow>
            stopReason_res res = Duration \<or> stopReason_res res = ConsecutiveFailures))"
proof (intro conjI impI allI)
  let ?s = "runSteadyMode opts ps t0 events"
  let ?N = "case requestCount opts of
              Some n \<Rightarrow> n
            | None \<Rightarrow>
                \<lfloor>fl ((case duration_steady opts of
                          Some d \<Rightarrow> if d = 0 then 60 else d
                        | None \<Rightarrow> 60) * rate opts)\<rfloor>"
  {
    assume nostop: "\<not> hasStopConditions opts"
    have total: "totalRequests opts = Some ?N"
      using nostop by (simp add: totalRequests_def)
    have none: "maxDuration opts = None" "maxConsecutiveFailures opts = None"
      using nostop by (simp_all add: hasStopConditions_def)
    have inv: "boundedInv ?N ?s"
      by (rule bounded_run [OF total none])
    have always: "int (nextRequestIndex ?s) \<le> max 0 ?N"
      "length (dispatched ?s) = nextRequestIndex ?s"
      using inv unfolding boundedInv_def by auto
    show "length (dispatched ?s) \<le> nat ?N"
      using always by linarith
    from bounded_liveness [OF total none inv steadyInv_run, of ps t0]
    obtain later where "returned (foldl (steadyStep opts ps t0) ?s later) \<noteq> None"
      by blast
    then show "\<exists>later. returned (runSteadyMode opts ps t0 (events @ later)) \<noteq> None"
      by (auto simp: runSteadyMode_def)
    fix res
    assume ret: "returned ?s = Some res"
    have ph: "phase ?s = Returned"
      using inv ret unfolding boundedInv_def by (cases "phase ?s") auto
    then have facts: "pendingRequests ?s = []" "stopReason_res res = Completed"
      "results_res res = results ?s" "?N \<le> int (nextRequestIndex ?s)"
      "length (results ?s) + length (pendingRequests ?s) = nextRequestIndex ?s"
      using inv ret unfolding boundedInv_def by auto
    show "stopReason_res res = Completed" by (rule facts(2))
    show "length (dispatched ?s) = nat ?N"
      using facts(4) always by linarith
    show "length (results_res res) = length (dispatched ?s)"
      using facts(1,3,5) always(2) by simp
  }
  assume stop: "hasStopConditions opts"
  have "steadyStep (opts\<lparr>requestCount := rc, duration_steady := d\<rparr>) ps t0
      = steadyStep opts ps t0"
    by (intro ext) (rule steadyStep_sizing_irrelevant [OF stop])
  then show "runSteadyMode (opts\<lparr>requestCount := rc, duration_steady := d\<rparr>) ps t0 events
      = runSteadyMode opts ps t0 events"
    by (simp add: runSteadyMode_def)
  have total: "totalRequests opts = None"
    using stop by (simp add: totalRequests_def)
  fix res
  assume "returned ?s = Some res"
  then have "stopReason_res res \<noteq> Completed"
    using stopInv_run [OF total, of ps t0 events] unfolding stopInv_def by blast
  then show "stopReason_res res = Duration \<or> stopReason_res res = ConsecutiveFailures"
    by (cases "stopReason_res res") auto
qed

lemma twoRequests_run:
  "\<exists>res. returned (runSteadyMode twoRequests [''a'', ''b''] 0 twoRequestsRun) = Some res"
  by (simp add: steady_eval twoRequests_def twoRequestsRun_def failedAt_def okAt_def)

theorem steady_sizing_witness:
  "\<not> hasStopConditions twoRequests \<and> hasStopConditions stopAfter3
   \<and> (\<exists>res. returned (runSteadyMode twoRequests [''a'', ''b''] 0 twoRequestsRun) = Some res
         \<and> stopReason_res res = Completed
         \<and> length (dispatched (runSteadyMode twoRequests [''a'', ''b''] 0 twoRequestsRun)) = 2
         \<and> length (results_res res) = 2)
   \<and> length (dispatched (runSteadyMode twoRequests [''a'', ''b''] 0 [Iterate 0 0])) \<le> 2
   \<and> (\<exists>later. returned (runSteadyMode twoRequests [''a'', ''b''] 0 ([Iterate 0 0] @ later))
         \<noteq> None)
   \<and> (\<exists>res. returned (runSteadyMode stopAfter3 [''a'', ''b''] 0 pacedFailures) = Some res
         \<and> stopReason_res res = ConsecutiveFailures)"
proof -
  have h: "\<not> hasStopConditions twoRequests" "hasStopConditions stopAfter3"
    by (simp_all add: hasStopConditions_def twoRequests_def stopAfter3_def)
  from twoRequests_run obtain res where
    res: "returned (runSteadyMode twoRequests [''a'', ''b''] 0 twoRequestsRun) = Some res"
    by blast
  have n: "requestCount twoRequests = Some 2" by (simp add: twoRequests_def)
  from steady_sizing [of twoRequests "[''a'', ''b'']" 0 twoRequestsRun] h(1) res n
  have a: "stopReason_res res = Completed"
    "length (dispatched (runSteadyMode twoRequests [''a'', ''b''] 0 twoRequestsRun)) = 2"
    "length (results_res res) = 2"
    by auto
  from steady_sizing [of twoRequests "[''a'', ''b'']" 0 "[Iterate 0 0]"] h(1) n
  have c: "length (dispatched (runSteadyMode twoRequests [''a'', ''b''] 0 [Iterate 0 0])) \<le> 2"
    "\<exists>later. returned (runSteadyMode twoRequests [''a'', ''b''] 0 ([Iterate 0 0] @ later))
       \<noteq> None"
    by auto
  from pacedFailures_run obtain res' where
    res': "returned (runSteadyMode stopAfter3 [''a'', ''b''] 0 pacedFailures) = Some res'"
    by blast
  have "stopReason_res res' \<noteq> Duration"
    using res' by (auto simp add: steady_eval stopAfter3_def pacedFailures_def failedAt_def)
  with steady_sizing [of stopAfter3 "[''a'', ''b'']" 0 pacedFailures] h(2) res'
  have b: "stopReason_res res' = ConsecutiveFailures"
    by auto
  from h res a res' b c show ?thesis by blast
qed

text \<open>
  With a duration of zero the run is not sized \<open>\<lfloor>0 \<times> rate\<rfloor> = 0\<close>: at one request
  every 32 seconds it is sized \<open>\<lfloor>60 / 32\<rfloor> = 1\<close> and dispatches one request.
\<close>

theorem steady_sizing_counterexample:
  "\<not> hasStopConditions zeroDuration \<and> requestCount zeroDuration = None
   \<and> duration_steady zeroDuration = Some 0
   \<and> \<lfloor>fl (0 * rate zeroDuration)\<rfloor> = 0 \<and> \<lfloor>0 * rate zeroDuration\<rfloor> = 0
   \<and> (\<exists>res. returned (runSteadyMode zeroDuration [''a''] 0 zeroDurationRun) = Some res
         \<and> length (results_res res) = 1)
   \<and> length (dispatched (runSteadyMode zeroDuration [''a''] 0 zeroDurationRun)) = 1"
  by (simp add: steady_eval zeroDuration_def zeroDurationRun_def okAt_def fl_15_8)

lemma results_processResult_grow:
  "\<exists>new. results (snd (processResult opts t0 r s)) = results s @ new"
  by (simp add: processResult_fields)

lemma results_step_grow:
  assumes "steadyInv s"
  shows "\<exists>new. results (steadyStep opts ps t0 s ev) = results s @ new"
proof (cases ev)
  case (Iterate now1 now2)
  then show ?thesis
    by (simp add: steadyStep_def loopIteration_def afterLoop_def finish_def Let_def)
next
  case (Resolve i raw)
  show ?thesis
  proof (cases "i \<notin> set (pendingRequests s) \<or> (phase s = Looping \<and> \<not> sleeping s)")
    case True
    then show ?thesis using Resolve by (simp add: steadyStep_def)
  next
    case False
    then have "steadyInv (onResolve opts t0 i raw s)"
      using assms by (simp add: steadyInv_onResolve)
    then show ?thesis
      using False Resolve
      by (simp add: steadyStep_def Let_def drainRemaining_id onResolve_fields finish_def
          split: Phase.split)
  qed
qed

text \<open>
  Claim C7. After any sequence of events (results arriving after the function returned
  included) the indices of the results are distinct and the timeline carries the same
  indices, so each occurs at most once in either. Every event only appends to the
  results, and what it appends has an index that was not present.
\<close>

theorem steady_indices_unique:
  "distinct (map index (results (runSteadyMode opts ps t0 events)))
   \<and> distinct (map index_tl (timeline (runSteadyMode opts ps t0 events)))
   \<and> map index_tl (timeline (runSteadyMode opts ps t0 events))
       = map index (results (runSteadyMode opts ps t0 events))
   \<and> (\<exists>new. results (runSteadyMode opts ps t0 (events @ [ev]))
               = results (runSteadyMode opts ps t0 events) @ new
         \<and> (\<forall>r \<in> set new.
               index r \<notin> index ` set (results (runSteadyMode opts ps t0 events))))"
proof -
  let ?s = "runSteadyMode opts ps t0 events"
  let ?s' = "runSteadyMode opts ps t0 (events @ [ev])"
  have inv: "steadyInv ?s" by (rule steadyInv_run)
  have step: "?s' = steadyStep opts ps t0 ?s ev"
    by (simp add: runSteadyMode_def)
  obtain new where new: "results ?s' = results ?s @ new"
    using results_step_grow [OF inv, of opts ps t0 ev] step by auto
  have "distinct (map index (results ?s'))"
    using steadyInv_run [of opts ps t0 "events @ [ev]"] unfolding steadyInv_def by blast
  then have "\<forall>r \<in> set new. index r \<notin> index ` set (results ?s)"
    unfolding new by auto
  with new inv show ?thesis
    unfolding steadyInv_def by auto
qed

theorem steady_indices_unique_witness:
  "(\<exists>res. returned (runSteadyMode stopAfter3 [''a'', ''b''] 0 (butlast lateArrival)) = Some res
      \<and> map index (results_res res) = [0, 1, 3])
   \<and> map index (results (runSteadyMode stopAfter3 [''a'', ''b''] 0 lateArrival)) = [0, 1, 3, 2]
   \<and> (\<exists>new. results (runSteadyMode stopAfter3 [''a'', ''b''] 0 lateArrival)
          = results (runSteadyMode stopAfter3 [''a'', ''b''] 0 (butlast lateArrival)) @ new
        \<and> (\<forall>r \<in> set new. index r \<notin> {0, 1, 3}))"
proof -
  have a: "\<exists>res. returned (runSteadyMode stopAfter3 [''a'', ''b''] 0 (butlast lateArrival))
        = Some res \<and> map index (results_res res) = [0, 1, 3]"
    by (simp add: steady_eval stopAfter3_def lateArrival_def failedAt_def)
  have b: "map index (results (runSteadyMode stopAfter3 [''a'', ''b''] 0 (butlast lateArrival)))
      = [0, 1, 3]"
    by (simp add: steady_eval stopAfter3_def lateArrival_def failedAt_def)
  have c: "map index (results (runSteadyMode stopAfter3 [''a'', ''b''] 0 lateArrival))
      = [0, 1, 3, 2]"
    by (simp add: steady_eval stopAfter3_def lateArrival_def failedAt_def)
  have split: "lateArrival = butlast lateArrival @ [Resolve 2 (failedAt 4000 9000)]"
    by (simp add: lateArrival_def)
  from steady_indices_unique [of stopAfter3 "[''a'', ''b'']" 0 "butlast lateArrival"
      "Resolve 2 (failedAt 4000 9000)"]
  obtain new where new:
    "results (runSteadyMode stopAfter3 [''a'', ''b''] 0
        (butlast lateArrival @ [Resolve 2 (failedAt 4000 9000)]))
      = results (runSteadyMode stopAfter3 [''a'', ''b''] 0 (butlast lateArrival)) @ new"
    "\<forall>r \<in> set new. index r \<notin> index `
        set (results (runSteadyMode stopAfter3 [''a'', ''b''] 0 (butlast lateArrival)))"
    by blast
  have "index ` set (results (runSteadyMode stopAfter3 [''a'', ''b''] 0 (butlast lateArrival)))
      = {0, 1, 3}"
    using arg_cong [OF b, of set] by simp
  with new split a c show ?thesis
    by auto
qed

section \<open>Burst controller\<close>

lemma executeSigningRequestInner_times:
  "executeSigningRequestInner env prepared t = Fulfils d r \<Longrightarrow>
     startTime r = t \<and> endTime r = t + int d"
  by (auto simp: executeSigningRequestInner_def Let_def
      split: option.splits sum.splits promise.splits)

lemma executeSigningRequest_times:
  "\<exists>d r. executeSigningRequest env prepared t = Fulfils d r
     \<and> startTime r = t \<and> endTime r = t + int d"
proof (cases "settlesInTime (executeSigningRequestInner env prepared t)
                (REQUEST_TIMEOUT_SECONDS env * 1000)")
  case True
  then obtain d r where inner: "executeSigningRequestInner env prepared t = Fulfils d r"
    using executeSigningRequestInner_no_reject [of env prepared t]
    by (cases "executeSigningRequestInner env prepared t") (auto simp: settlesInTime_def)
  have "executeSigningRequest env prepared t = Fulfils d r"
    using True inner by (simp add: executeSigningRequest_def withTimeout_def Let_def)
  then show ?thesis
    using executeSigningRequestInner_times [OF inner] by simp
next
  case False
  then show ?thesis
    by (simp add: executeSigningRequest_def withTimeout_def Let_def)
qed

lemma timely_executor: "timely (\<lambda>k. executeSigningRequest (env k))"
  unfolding timely_def using executeSigningRequest_times by blast

lemma firstRejection_fulfilled:
  "\<forall>p \<in> set ps. fulfilled p \<Longrightarrow> firstRejection ps = None"
  by (induction ps rule: firstRejection.induct) (auto simp: fulfilled_def)

lemma fulfilments_fulfilled:
  "\<forall>p \<in> set ps. fulfilled p \<Longrightarrow> fulfilments ps = Some (map (\<lambda>p. (delayOf p, valueOf p)) ps)"
  by (induction ps rule: fulfilments.induct) (auto simp: fulfilled_def delayOf_def valueOf_def)

lemma promiseAll_fulfilled:
  assumes "\<forall>p \<in> set ps. fulfilled p"
  shows "promiseAll ps = Fulfils (foldl max 0 (map delayOf ps)) (map valueOf ps)"
  using assms
  by (simp add: promiseAll_def firstRejection_fulfilled fulfilments_fulfilled comp_def)

lemma foldl_max_ge: "(a :: nat) \<le> foldl max a xs"
  by (induction xs arbitrary: a) (auto intro: order_trans [OF max.cobounded1])

lemma foldl_max_mem: "x \<in> set xs \<Longrightarrow> (x :: nat) \<le> foldl max a xs"
proof (induction xs arbitrary: a)
  case Nil
  then show ?case by simp
next
  case (Cons y ys)
  show ?case
  proof (cases "x = y")
    case True
    have "y \<le> max a y" by simp
    also have "\<dots> \<le> foldl max (max a y) ys" by (rule foldl_max_ge)
    finally show ?thesis using True by simp
  next
    case False
    then show ?thesis using Cons by simp
  qed
qed

lemma dispatch_loop:
  "((dispatchOne exec ps) ^^ n) (s, bp) =
     (s\<lparr>payloadIndex_b := payloadIndex_b s + n, requestIndex := requestIndex s + n,
        calls := calls s @ batchCalls ps s n\<rparr>,
      bp @ batchPromisesOf exec ps s n)"
proof (induction n)
  case 0
  then show ?case by (simp add: batchCalls_def batchPromisesOf_def)
next
  case (Suc n)
  then show ?case
    by (simp add: dispatchOne_def Let_def batchCalls_def batchPromisesOf_def)
qed

lemma batch_promise:
  assumes "timely exec"
  shows "\<exists>d r. thenMap (\<lambda>r. r\<lparr>index := idx\<rparr>) (exec idx p t) = Fulfils d (r\<lparr>index := idx\<rparr>)
     \<and> startTime r = t \<and> endTime r = t + int d"
proof -
  obtain d r where "exec idx p t = Fulfils d r" "startTime r = t" "endTime r = t + int d"
    using assms unfolding timely_def by blast
  then show ?thesis by auto
qed

lemma batch_fulfilled:
  assumes "timely exec"
  shows "\<forall>p \<in> set (batchPromisesOf exec ps s n). fulfilled p"
proof
  fix p
  assume "p \<in> set (batchPromisesOf exec ps s n)"
  then obtain i where "p = thenMap (\<lambda>r. r\<lparr>index := requestIndex s + i\<rparr>)
       (exec (requestIndex s + i) (payloadAt ps (payloadIndex_b s + i)) (clock s))"
    by (auto simp: batchPromisesOf_def)
  then show "fulfilled p"
    using batch_promise [OF assms, of "requestIndex s + i" "payloadAt ps (payloadIndex_b s + i)"
        "clock s"]
    by (auto simp: fulfilled_def)
qed

lemma batch_result_nth:
  assumes "timely exec" "i < n"
  shows "index (map valueOf (batchPromisesOf exec ps s n) ! i) = requestIndex s + i"
    "startTime (map valueOf (batchPromisesOf exec ps s n) ! i) = clock s"
    "endTime (map valueOf (batchPromisesOf exec ps s n) ! i)
       \<le> clock s + int (foldl max 0 (map delayOf (batchPromisesOf exec ps s n)))"
proof -
  let ?p = "batchPromisesOf exec ps s n ! i"
  have len: "i < length (batchPromisesOf exec ps s n)"
    using assms(2) by (simp add: batchPromisesOf_def)
  have p: "?p = thenMap (\<lambda>r. r\<lparr>index := requestIndex s + i\<rparr>)
       (exec (requestIndex s + i) (payloadAt ps (payloadIndex_b s + i)) (clock s))"
    using assms(2) by (simp add: batchPromisesOf_def)
  obtain d r where dr: "?p = Fulfils d (r\<lparr>index := requestIndex s + i\<rparr>)"
    "startTime r = clock s" "endTime r = clock s + int d"
    using batch_promise [OF assms(1), of "requestIndex s + i"
        "payloadAt ps (payloadIndex_b s + i)" "clock s"] p
    by auto
  have v: "map valueOf (batchPromisesOf exec ps s n) ! i = r\<lparr>index := requestIndex s + i\<rparr>"
    using len dr(1) by (simp add: valueOf_def)
  have "delayOf ?p \<in> set (map delayOf (batchPromisesOf exec ps s n))"
    using len by simp
  then have "delayOf ?p \<le> foldl max 0 (map delayOf (batchPromisesOf exec ps s n))"
    by (rule foldl_max_mem)
  then have d: "d \<le> foldl max 0 (map delayOf (batchPromisesOf exec ps s n))"
    using dr(1) by (simp add: delayOf_def)
  show "index (map valueOf (batchPromisesOf exec ps s n) ! i) = requestIndex s + i"
    using v by simp
  show "startTime (map valueOf (batchPromisesOf exec ps s n) ! i) = clock s"
    using v dr(2) by simp
  show "endTime (map valueOf (batchPromisesOf exec ps s n) ! i)
       \<le> clock s + int (foldl max 0 (map delayOf (batchPromisesOf exec ps s n)))"
    using v dr(3) d by simp
qed

lemma runBatch_timely:
  assumes "timely exec" "requestIndex s + B \<le> totalReq"
  shows "runBatch exec ps B totalReq s =
     Some (Inr (s\<lparr>payloadIndex_b := payloadIndex_b s + B, requestIndex := requestIndex s + B,
                  calls := calls s @ batchCalls ps s B,
                  results_b := results_b s @ map valueOf (batchPromisesOf exec ps s B),
                  clock := clock s
                    + int (foldl max 0 (map delayOf (batchPromisesOf exec ps s B)))\<rparr>))"
proof -
  have size: "nat (min (int B) (int totalReq - int (requestIndex s))) = B"
    using assms(2) by simp
  show ?thesis
    unfolding runBatch_def Let_def size dispatch_loop
    by (simp add: promiseAll_fulfilled [OF batch_fulfilled [OF assms(1)]])
qed

lemma burstInv_step:
  assumes "timely exec" "burstInv ps B k s" "Suc k * B \<le> totalReq"
  shows "\<exists>s'. runBatch exec ps B totalReq s = Some (Inr s') \<and> burstInv ps B (Suc k) s'"
proof -
  let ?R = "map valueOf (batchPromisesOf exec ps s B)"
  let ?D = "int (foldl max 0 (map delayOf (batchPromisesOf exec ps s B)))"
  let ?s' = "s\<lparr>payloadIndex_b := payloadIndex_b s + B, requestIndex := requestIndex s + B,
                  calls := calls s @ batchCalls ps s B,
                  results_b := results_b s @ ?R, clock := clock s + ?D\<rparr>"
  have inv: "requestIndex s = k * B" "payloadIndex_b s = k * B"
    "map index (results_b s) = [0..<k * B]"
    "\<forall>r \<in> set (results_b s). endTime r \<le> clock s"
    "\<forall>i < k * B. \<forall>j < k * B. i div B < j div B \<longrightarrow>
           endTime (results_b s ! i) \<le> startTime (results_b s ! j)"
    "calls s = map (\<lambda>i. (i, payloadAt ps i, startTime (results_b s ! i))) [0..<k * B]"
    using assms(2) unfolding burstInv_def by simp_all
  have lenold: "length (results_b s) = k * B"
    using arg_cong [OF inv(3), of length] by simp
  have lenR: "length ?R = B" by (simp add: batchPromisesOf_def)
  have run: "runBatch exec ps B totalReq s = Some (Inr ?s')"
    using assms(3) inv(1) by (intro runBatch_timely [OF assms(1)]) simp
  have Rn: "index (?R ! i) = k * B + i" "startTime (?R ! i) = clock s"
    "endTime (?R ! i) \<le> clock s + ?D" if "i < B" for i
    using batch_result_nth [OF assms(1) that, of ps s] inv(1) by simp_all
  have idx: "map index (results_b s @ ?R) = [0..<Suc k * B]"
  proof -
    have "map index ?R = map (\<lambda>i. k * B + i) [0..<B]"
    proof (rule nth_equalityI)
      show "length (map index ?R) = length (map (\<lambda>i. k * B + i) [0..<B])"
        using lenR by simp
    next
      fix i
      assume "i < length (map index ?R)"
      then have i: "i < B" using lenR by simp
      have "map index ?R ! i = index (?R ! i)"
        using i lenR by (intro nth_map) simp
      then show "map index ?R ! i = map (\<lambda>i. k * B + i) [0..<B] ! i"
        using Rn(1) [OF i] i by simp
    qed
    also have "\<dots> = [k * B..<k * B + B]"
      by (simp add: map_add_upt add.commute)
    finally have "map index ?R = [k * B..<k * B + B]" .
    moreover have "[0..<Suc k * B] = [0..<k * B] @ [k * B..<k * B + B]"
      using upt_add_eq_append [of 0 "k * B" B] by (simp add: add.commute)
    ultimately show ?thesis
      using inv(3) by (simp del: map_map)
  qed
  have nth_old: "(results_b s @ ?R) ! i = results_b s ! i" if "i < k * B" for i
    using that lenold by (simp add: nth_append)
  have nth_new: "(results_b s @ ?R) ! i = ?R ! (i - k * B)" if "k * B \<le> i" for i
    using that lenold by (simp add: nth_append)
  have ends: "\<forall>r \<in> set (results_b s @ ?R). endTime r \<le> clock s + ?D"
  proof
    fix r
    assume "r \<in> set (results_b s @ ?R)"
    then have "r \<in> set (results_b s) \<or> r \<in> set ?R" by simp
    then show "endTime r \<le> clock s + ?D"
    proof
      assume "r \<in> set (results_b s)"
      then have "endTime r \<le> clock s" using inv(4) by blast
      then show ?thesis by simp
    next
      assume "r \<in> set ?R"
      then obtain i where i: "i < length ?R" "?R ! i = r"
        by (meson in_set_conv_nth)
      then have "i < B" using lenR by simp
      from Rn(3) [OF this] i(2) show ?thesis by simp
    qed
  qed
  have order: "endTime ((results_b s @ ?R) ! i) \<le> startTime ((results_b s @ ?R) ! j)"
    if "i < Suc k * B" "j < Suc k * B" "i div B < j div B" for i j
  proof -
    have Bpos: "0 < B" using that(1) by (cases B) auto
    have jk: "j div B \<le> k"
      using that(2) Bpos by (simp add: less_mult_imp_div_less less_Suc_eq_le[symmetric])
    have ik: "i < k * B"
    proof -
      have "i div B < k" using that(3) jk by simp
      then have "Suc (i div B) \<le> k" by simp
      then have "Suc (i div B) * B \<le> k * B" by (rule mult_le_mono1)
      moreover have "i < Suc (i div B) * B"
        using Bpos by (simp add: dividend_less_times_div mult.commute)
      ultimately show ?thesis by simp
    qed
    show ?thesis
    proof (cases "j < k * B")
      case True
      then show ?thesis
        using inv(5) ik that(3) by (simp add: nth_old)
    next
      case False
      then have jnew: "k * B \<le> j" "j - k * B < B"
        using that(2) by simp_all
      have "results_b s ! i \<in> set (results_b s)"
        using ik lenold by simp
      then have "endTime (results_b s ! i) \<le> clock s"
        using inv(4) by blast
      then show ?thesis
        using ik jnew by (simp add: nth_old nth_new Rn(2))
    qed
  qed
  have cl: "calls s @ batchCalls ps s B
      = map (\<lambda>i. (i, payloadAt ps i, startTime ((results_b s @ ?R) ! i))) [0..<Suc k * B]"
  proof (rule nth_equalityI)
    show "length (calls s @ batchCalls ps s B)
        = length (map (\<lambda>i. (i, payloadAt ps i, startTime ((results_b s @ ?R) ! i)))
            [0..<Suc k * B])"
      by (simp add: inv(6) batchCalls_def)
  next
    fix i
    assume "i < length (calls s @ batchCalls ps s B)"
    then have i: "i < Suc k * B" by (simp add: inv(6) batchCalls_def)
    show "(calls s @ batchCalls ps s B) ! i
        = map (\<lambda>i. (i, payloadAt ps i, startTime ((results_b s @ ?R) ! i))) [0..<Suc k * B] ! i"
    proof (cases "i < k * B")
      case True
      have "(calls s @ batchCalls ps s B) ! i = calls s ! i"
        using True by (simp add: nth_append inv(6))
      also have "\<dots> = (i, payloadAt ps i, startTime (results_b s ! i))"
        using True by (simp add: inv(6))
      finally show ?thesis
        using i True by (simp add: nth_old)
    next
      case False
      then have new: "k * B \<le> i" "i - k * B < B" using i by simp_all
      have "(calls s @ batchCalls ps s B) ! i = batchCalls ps s B ! (i - k * B)"
        using False by (simp add: nth_append inv(6))
      also have "\<dots> = (i, payloadAt ps i, clock s)"
        using new by (simp add: batchCalls_def inv(1) inv(2))
      finally show ?thesis
        using i new by (simp add: nth_new Rn(2))
    qed
  qed
  have "burstInv ps B (Suc k) ?s'"
    unfolding burstInv_def
    using inv(1,2) idx ends order cl by (simp add: add.commute)
  with run show ?thesis by blast
qed

lemma runBatches_timely:
  assumes "timely exec"
  shows "burstInv ps B k s \<Longrightarrow> (k + m) * B \<le> totalReq \<Longrightarrow>
     \<exists>s'. runBatches exec ps B totalReq m s = Some (Inr s') \<and> burstInv ps B (k + m) s'"
proof (induction m arbitrary: k s)
  case 0
  then show ?case by simp
next
  case (Suc m)
  have "Suc k * B \<le> (k + Suc m) * B" by (rule mult_le_mono1) simp
  then have "Suc k * B \<le> totalReq" using Suc.prems(2) by (rule order_trans)
  from burstInv_step [OF assms Suc.prems(1) this]
  obtain s1 where s1: "runBatch exec ps B totalReq s = Some (Inr s1)" "burstInv ps B (Suc k) s1"
    by blast
  have "(Suc k + m) * B \<le> totalReq" using Suc.prems(2) by (simp only: add_Suc add_Suc_right)
  from Suc.IH [OF s1(2) this] s1(1) show ?case by (simp only: add_Suc add_Suc_right) simp
qed

lemma runBurstMode_timely:
  assumes "timely exec"
  shows "\<exists>s. runBurstMode exec ps B N t0 = Some (Inr s) \<and> burstInv ps B N s"
proof -
  have "burstInv ps B 0
     \<lparr>results_b = [], payloadIndex_b = 0, requestIndex = 0, clock = t0, calls = []\<rparr>"
    by (simp add: burstInv_def)
  from runBatches_timely [OF assms this, of N "N * B"] show ?thesis
    by (simp add: runBurstMode_def)
qed

lemma funpow_two: "(f ^^ 2) x = f (f x)"
  by (simp add: numeral_2_eq_2)

lemma runBatches_two:
  "runBatches exec ps B totalReq 2 s =
     (case runBatch exec ps B totalReq s of
        None \<Rightarrow> None
      | Some (Inl e) \<Rightarrow> Some (Inl e)
      | Some (Inr s') \<Rightarrow>
          (case runBatch exec ps B totalReq s' of
             None \<Rightarrow> None
           | Some (Inl e) \<Rightarrow> Some (Inl e)
           | Some (Inr s'') \<Rightarrow> Some (Inr s'')))"
  by (simp add: numeral_2_eq_2 split: option.split sum.split)

lemmas burst_eval =
  runBurstMode_def runBatches_two runBatch_def funpow_two dispatchOne_def promiseAll_def
  payloadAt_def executeSigningRequest_def executeSigningRequestInner_def withTimeout_def
  settlesInTime_def Let_def

lemma flaky_burst:
  "\<exists>s. runBurstMode (\<lambda>k. executeSigningRequest (flakySigner k)) threePayloads 2 2 1000
        = Some (Inr s)
     \<and> map endTime (results_b s) = [1100, 1290, 1410, 1560]
     \<and> map startTime (results_b s) = [1000, 1000, 1290, 1290]
     \<and> map (\<lambda>c. fst (snd c)) (calls s) = map Some [threePayloads ! 0, threePayloads ! 1, threePayloads ! 2, threePayloads ! 0]"
  by (simp add: burst_eval flakySigner_def threePayloads_def)

text \<open>
  Claim C5. For every batch size \<open>B\<close>, number of batches \<open>N\<close> and backend (any
  latencies, any outcomes) a burst run returns exactly \<open>N \<times> B\<close> results. Their
  indices are \<open>0, \<dots>, N \<times> B - 1\<close> in this order, assigned at the calls of the executor,
  which are made in the same order, each at the start time of its result. No request of
  a later batch is dispatched before every request of an earlier batch has completed:
  the end time of a result of batch \<open>i div B\<close> is at most the start time of any result
  of a later batch.
\<close>

theorem burst_batches_sequential:
  "\<exists>s. runBurstMode (\<lambda>k. executeSigningRequest (env k)) ps B N t0 = Some (Inr s)
     \<and> length (results_b s) = N * B
     \<and> map index (results_b s) = [0..<N * B]
     \<and> map fst (calls s) = [0..<N * B]
     \<and> map (\<lambda>c. snd (snd c)) (calls s) = map startTime (results_b s)
     \<and> (\<forall>i < N * B. \<forall>j < N * B. i div B < j div B \<longrightarrow>
           endTime (results_b s ! i) \<le> startTime (results_b s ! j))"
proof -
  obtain s where s: "runBurstMode (\<lambda>k. executeSigningRequest (env k)) ps B N t0 = Some (Inr s)"
    "burstInv ps B N s"
    using runBurstMode_timely [OF timely_executor, of env ps B N t0] by blast
  have idx: "map index (results_b s) = [0..<N * B]"
    and ord: "\<forall>i < N * B. \<forall>j < N * B. i div B < j div B \<longrightarrow>
           endTime (results_b s ! i) \<le> startTime (results_b s ! j)"
    and cl: "calls s = map (\<lambda>i. (i, payloadAt ps i, startTime (results_b s ! i))) [0..<N * B]"
    using s(2) unfolding burstInv_def by simp_all
  have len: "length (results_b s) = N * B"
    using arg_cong [OF idx, of length] by simp
  have c1: "map fst (calls s) = [0..<N * B]"
    unfolding cl by (simp add: comp_def)
  have c2: "map (\<lambda>c. snd (snd c)) (calls s) = map startTime (results_b s)"
    unfolding cl by (rule nth_equalityI) (simp_all add: len)
  from s(1) len idx c1 c2 ord show ?thesis by blast
qed

theorem burst_batches_sequential_witness:
  "\<exists>s. runBurstMode (\<lambda>k. executeSigningRequest (flakySigner k)) threePayloads 2 2 1000
        = Some (Inr s)
     \<and> map index (results_b s) = [0, 1, 2, 3]
     \<and> (1 :: nat) < 2 * 2 \<and> (2 :: nat) < 2 * 2 \<and> (1 :: nat) div 2 < 2 div 2
     \<and> endTime (results_b s ! 1) = 1290 \<and> startTime (results_b s ! 2) = 1290
     \<and> endTime (results_b s ! 1) \<le> startTime (results_b s ! 2)"
proof -
  from burst_batches_sequential [of flakySigner threePayloads 2 2 1000]
  obtain s where s:
    "runBurstMode (\<lambda>k. executeSigningRequest (flakySigner k)) threePayloads 2 2 1000
        = Some (Inr s)"
    "map index (results_b s) = [0..<2 * 2]"
    "\<forall>i < 2 * 2. \<forall>j < 2 * 2. i div 2 < j div 2 \<longrightarrow>
           endTime (results_b s ! i) \<le> startTime (results_b s ! j)"
    by blast
  have h: "(1 :: nat) < 2 * 2" "(2 :: nat) < 2 * 2" "(1 :: nat) div 2 < 2 div 2"
    by simp_all
  from s(3) h have le: "endTime (results_b s ! 1) \<le> startTime (results_b s ! 2)"
    by blast
  from flaky_burst s(1) have t: "map endTime (results_b s) = [1100, 1290, 1410, 1560]"
    "map startTime (results_b s) = [1000, 1000, 1290, 1290]"
    by auto
  have len: "length (results_b s) = 4"
    using arg_cong [OF t(1), of length] by simp
  have e: "endTime (results_b s ! 1) = 1290"
    using arg_cong [OF t(1), of "\<lambda>xs. xs ! 1"] len by simp
  have st: "startTime (results_b s ! 2) = 1290"
    using arg_cong [OF t(2), of "\<lambda>xs. xs ! 2"] len by simp
  have i: "map index (results_b s) = [0, 1, 2, 3]"
    using s(2) by (simp add: upt_rec)
  show ?thesis
    by (rule exI [of _ s]) (insert s(1) i e st, simp)
qed

section \<open>Main: summaries of the steady runs\<close>

lemma sweepSteady_level:
  assumes "results_res res \<noteq> []"
  shows "\<exists>marked. sweepSteady engine je ((rt, res) # levels) acc = sweepSteady engine je levels (acc @ [marked])
     \<and> stoppedEarly marked = (if degraded (results_res res) then Some True else None)
     \<and> targetRate marked = rt \<and> mode marked = Steady
     \<and> total (requests marked) = length (results_res res)"
proof -
  obtain summary where summary: "printResults engine je (results_res res) Steady rt None = Inr summary"
    "total (requests summary) = length (results_res res)" "mode summary = Steady"
    "targetRate summary = rt" "stoppedEarly summary = None"
    using printResults_ok [OF assms, of engine je Steady rt None] by blast
  have len: "10 \<le> length (drop (length (results_res res) - 10) (results_res res))
      \<longleftrightarrow> 10 \<le> length (results_res res)"
    by auto
  show ?thesis
  proof (cases "degraded (results_res res)")
    case True
    then have "sweepSteady engine je ((rt, res) # levels) acc
        = sweepSteady engine je levels (acc @ [summary\<lparr>stoppedEarly := Some True\<rparr>])"
      using summary(1) len by (simp add: degraded_def Let_def)
    then show ?thesis using True summary by (intro exI [of _ "summary\<lparr>stoppedEarly := Some True\<rparr>"]) simp
  next
    case False
    then have "sweepSteady engine je ((rt, res) # levels) acc = sweepSteady engine je levels (acc @ [summary])"
      using summary(1) len by (auto simp: degraded_def Let_def)
    then show ?thesis using False summary by (intro exI [of _ summary]) simp
  qed
qed

lemma sweepSteady_all:
  "\<forall>lv \<in> set levels. results_res (snd lv) \<noteq> [] \<Longrightarrow>
     \<exists>out. sweepSteady engine je levels acc = Inr (acc @ out) \<and> length out = length levels
       \<and> (\<forall>k < length levels.
             stoppedEarly (out ! k)
               = (if degraded (results_res (snd (levels ! k))) then Some True else None)
           \<and> targetRate (out ! k) = fst (levels ! k)
           \<and> total (requests (out ! k)) = length (results_res (snd (levels ! k))))"
proof (induction levels arbitrary: acc)
  case Nil
  then show ?case by simp
next
  case (Cons lv levels)
  obtain rt res where lv: "lv = (rt, res)" by (cases lv)
  have ne: "results_res res \<noteq> []" using Cons.prems lv by simp
  from sweepSteady_level [OF ne, of engine je rt levels acc]
  obtain marked where m:
    "sweepSteady engine je ((rt, res) # levels) acc = sweepSteady engine je levels (acc @ [marked])"
    "stoppedEarly marked = (if degraded (results_res res) then Some True else None)"
    "targetRate marked = rt" "total (requests marked) = length (results_res res)"
    by blast
  have "\<forall>lv \<in> set levels. results_res (snd lv) \<noteq> []" using Cons.prems by simp
  from Cons.IH [OF this, of "acc @ [marked]"]
  obtain out where out: "sweepSteady engine je levels (acc @ [marked]) = Inr ((acc @ [marked]) @ out)"
    "length out = length levels"
    "\<forall>k < length levels.
        stoppedEarly (out ! k)
          = (if degraded (results_res (snd (levels ! k))) then Some True else None)
      \<and> targetRate (out ! k) = fst (levels ! k)
      \<and> total (requests (out ! k)) = length (results_res (snd (levels ! k)))"
    by blast
  have "\<forall>k < length (lv # levels).
        stoppedEarly ((marked # out) ! k)
          = (if degraded (results_res (snd ((lv # levels) ! k))) then Some True else None)
      \<and> targetRate ((marked # out) ! k) = fst ((lv # levels) ! k)
      \<and> total (requests ((marked # out) ! k)) = length (results_res (snd ((lv # levels) ! k)))"
  proof (intro allI impI)
    fix k
    assume "k < length (lv # levels)"
    then show "stoppedEarly ((marked # out) ! k)
          = (if degraded (results_res (snd ((lv # levels) ! k))) then Some True else None)
      \<and> targetRate ((marked # out) ! k) = fst ((lv # levels) ! k)
      \<and> total (requests ((marked # out) ! k)) = length (results_res (snd ((lv # levels) ! k)))"
      using m(2-4) out(3) lv by (cases k) simp_all
  qed
  then show ?case
    using m(1) out(1,2) lv by (intro exI [of _ "marked # out"]) simp
qed

text \<open>
  Claim C4, as amended. When every steady run of the sweep produced at least one result,
  the loop summarises every level, in order; the summary of a level is marked
  \<^verbatim>\<open>stoppedEarly = true\<close> exactly when the run produced at least ten results and its
  last ten all failed, and carries no mark otherwise.
\<close>

theorem sweep_marks_degraded:
  "(\<forall>lv \<in> set levels. results_res (snd lv) \<noteq> []) \<longrightarrow>
     (\<exists>out. sweepSteady engine je levels [] = Inr out \<and> length out = length levels
        \<and> (\<forall>k < length levels.
              stoppedEarly (out ! k)
                = (if 10 \<le> length (results_res (snd (levels ! k)))
                      \<and> list_all (\<lambda>r. \<not> success r)
                           (drop (length (results_res (snd (levels ! k))) - 10)
                              (results_res (snd (levels ! k))))
                   then Some True else None)
            \<and> targetRate (out ! k) = fst (levels ! k)
            \<and> total (requests (out ! k)) = length (results_res (snd (levels ! k)))))"
  using sweepSteady_all [of levels engine je "[]"] unfolding degraded_def by simp

lemma tenFailures_facts:
  "length (results_res tenFailures) = 10"
  "list_all (\<lambda>r. \<not> success r) (results_res tenFailures)"
  by (simp_all add: tenFailures_def failedAt_def list_all_iff)

lemma threeFailures_facts:
  "length (results_res threeFailures) = 3"
  "list_all (\<lambda>r. \<not> success r) (results_res threeFailures)"
  by (simp_all add: threeFailures_def failedAt_def list_all_iff)

theorem sweep_marks_degraded_witness:
  "results_res (snd (twoLevels ! 0)) \<noteq> [] \<and> results_res (snd (twoLevels ! 1)) \<noteq> []
   \<and> length twoLevels = 2
   \<and> (\<exists>out. sweepSteady correctlyRounded (\<lambda>_. None) twoLevels [] = Inr out
         \<and> length out = 2
         \<and> stoppedEarly (out ! 0) = Some True
         \<and> stoppedEarly (out ! 1) = None)"
proof -
  have n10: "results_res tenFailures \<noteq> []"
    using tenFailures_facts(1) by auto
  have n3: "results_res threeFailures \<noteq> []"
    using threeFailures_facts(1) by auto
  have ne: "\<forall>lv \<in> set twoLevels. results_res (snd lv) \<noteq> []"
    using n10 n3 by (simp add: twoLevels_def)
  have "\<exists>out. sweepSteady correctlyRounded (\<lambda>_. None) twoLevels [] = Inr out \<and> length out = length twoLevels
      \<and> (\<forall>k < length twoLevels.
            stoppedEarly (out ! k)
              = (if 10 \<le> length (results_res (snd (twoLevels ! k)))
                    \<and> list_all (\<lambda>r. \<not> success r)
                         (drop (length (results_res (snd (twoLevels ! k))) - 10)
                            (results_res (snd (twoLevels ! k))))
                 then Some True else None)
          \<and> targetRate (out ! k) = fst (twoLevels ! k)
          \<and> total (requests (out ! k)) = length (results_res (snd (twoLevels ! k))))"
    (is "\<exists>out. ?run out \<and> ?len out \<and> ?marks out")
    by (rule sweep_marks_degraded [of twoLevels correctlyRounded "\<lambda>_. None", THEN mp, OF ne])
  then obtain out where o: "?run out \<and> ?len out \<and> ?marks out" ..
  then have run: "?run out" and len: "?len out" and marks: "?marks out"
    by simp_all
  have s0: "stoppedEarly (out ! 0) = Some True"
    using marks [rule_format, of 0] tenFailures_facts by (simp add: twoLevels_def)
  have s1: "stoppedEarly (out ! 1) = None"
    using marks [rule_format, of 1] threeFailures_facts(1) by (simp add: twoLevels_def)
  have l2: "length out = 2" using len by (simp add: twoLevels_def)
  have "results_res (snd (twoLevels ! 0)) \<noteq> []" "results_res (snd (twoLevels ! 1)) \<noteq> []"
    "length twoLevels = 2"
    using n10 n3 by (simp_all add: twoLevels_def)
  then show ?thesis
    using run l2 s0 s1 by blast
qed

text \<open>
  A run of three results, all failed, is not marked: the guard asks for ten results.
\<close>

theorem sweep_marks_degraded_counterexample:
  "list_all (\<lambda>r. \<not> success r) (results_res threeFailures)
   \<and> length (results_res threeFailures) = 3
   \<and> (\<exists>out. sweepSteady correctlyRounded (\<lambda>_. None) [(1, threeFailures)] [] = Inr out
         \<and> length out = 1 \<and> stoppedEarly (out ! 0) = None)"
proof -
  have a: "list_all (\<lambda>r. \<not> success r) (results_res threeFailures)"
    "length (results_res threeFailures) = 3"
    by (simp_all add: threeFailures_def failedAt_def list_all_iff)
  have "\<forall>lv \<in> set [(1 :: real, threeFailures)]. results_res (snd lv) \<noteq> []"
    using a(2) by auto
  from sweepSteady_all [OF this, of correctlyRounded "\<lambda>_. None" "[]"]
  obtain out where out: "sweepSteady correctlyRounded (\<lambda>_. None) [(1, threeFailures)] [] = Inr out"
    "length out = 1"
    "stoppedEarly (out ! 0)
       = (if degraded (results_res threeFailures) then Some True else None)"
    by auto
  have "\<not> degraded (results_res threeFailures)"
    using a(2) by (simp add: degraded_def)
  with out a show ?thesis by auto
qed

section \<open>Payload selection\<close>

text \<open>
  Claim C10. With more than one prepared payload, the \<open>k\<close>-th request dispatched by a
  steady run, at any moment of any run, uses \<open>preparedPayloads[k mod length]\<close>; so does
  the \<open>k\<close>-th request of a burst run, counting across its batches.
\<close>

theorem payloads_round_robin:
  "1 < length ps \<longrightarrow>
     (\<forall>k < length (dispatched (runSteadyMode opts ps t0 events)).
        dispatched (runSteadyMode opts ps t0 events) ! k = (k, Some (ps ! (k mod length ps))))
   \<and> (\<exists>s. runBurstMode (\<lambda>k. executeSigningRequest (env k)) ps B N startT = Some (Inr s)
         \<and> length (calls s) = N * B
         \<and> (\<forall>k < N * B.
               fst (calls s ! k) = k
             \<and> fst (snd (calls s ! k)) = Some (ps ! (k mod length ps))))"
proof (intro impI conjI allI)
  assume many: "1 < length ps"
  then have pa: "payloadAt ps k = Some (ps ! (k mod length ps))" for k
    by (auto simp: payloadAt_def)
  {
    fix k
    assume k: "k < length (dispatched (runSteadyMode opts ps t0 events))"
    have inv: "dispatchInv ps (runSteadyMode opts ps t0 events)"
      by (rule dispatchInv_run)
    then have d: "dispatched (runSteadyMode opts ps t0 events)
        = map (\<lambda>k. (k, payloadAt ps k)) [0..<nextRequestIndex (runSteadyMode opts ps t0 events)]"
      unfolding dispatchInv_def by simp
    have "k < nextRequestIndex (runSteadyMode opts ps t0 events)"
      using k unfolding d by simp
    then have "dispatched (runSteadyMode opts ps t0 events) ! k = (k, payloadAt ps k)"
      unfolding d by simp
    then show "dispatched (runSteadyMode opts ps t0 events) ! k
        = (k, Some (ps ! (k mod length ps)))"
      by (simp add: pa)
  }
  obtain s where s: "runBurstMode (\<lambda>k. executeSigningRequest (env k)) ps B N startT
      = Some (Inr s)" "burstInv ps B N s"
    using runBurstMode_timely [OF timely_executor, of env ps B N startT] by blast
  have cl: "calls s = map (\<lambda>i. (i, payloadAt ps i, startTime (results_b s ! i))) [0..<N * B]"
    using s(2) unfolding burstInv_def by simp
  have "length (calls s) = N * B" unfolding cl by simp
  moreover have "\<forall>k < N * B. fst (calls s ! k) = k
      \<and> fst (snd (calls s ! k)) = Some (ps ! (k mod length ps))"
    unfolding cl by (simp add: pa)
  ultimately show "\<exists>s. runBurstMode (\<lambda>k. executeSigningRequest (env k)) ps B N startT
         = Some (Inr s)
       \<and> length (calls s) = N * B
       \<and> (\<forall>k < N * B.
             fst (calls s ! k) = k
           \<and> fst (snd (calls s ! k)) = Some (ps ! (k mod length ps)))"
    using s(1) by blast
qed

theorem payloads_round_robin_witness:
  "1 < length threePayloads
   \<and> (1 :: nat) < length (dispatched (runSteadyMode twoRequests threePayloads 0 twoRequestsRun))
   \<and> dispatched (runSteadyMode twoRequests threePayloads 0 twoRequestsRun) ! 1
       = (1, Some (threePayloads ! 1))
   \<and> (\<exists>s. runBurstMode (\<lambda>k. executeSigningRequest (flakySigner k)) threePayloads 2 2 1000
            = Some (Inr s)
         \<and> length (calls s) = 4
         \<and> fst (snd (calls s ! 3)) = Some (threePayloads ! 0))"
proof -
  have many: "1 < length threePayloads" by (simp add: threePayloads_def)
  have len3: "length threePayloads = 3" by (simp add: threePayloads_def)
  have len: "length (dispatched (runSteadyMode twoRequests threePayloads 0 twoRequestsRun)) = 2"
    by (simp add: steady_eval twoRequests_def twoRequestsRun_def failedAt_def okAt_def
        threePayloads_def)
  note rr = payloads_round_robin [of threePayloads twoRequests 0 twoRequestsRun flakySigner
      2 2 1000, THEN mp, OF many]
  have steady: "dispatched (runSteadyMode twoRequests threePayloads 0 twoRequestsRun) ! 1
       = (1, Some (threePayloads ! (1 mod length threePayloads)))"
    using rr [THEN conjunct1, rule_format, of 1] len by simp
  from rr [THEN conjunct2] obtain s where s:
    "runBurstMode (\<lambda>k. executeSigningRequest (flakySigner k)) threePayloads 2 2 1000
        = Some (Inr s)"
    "length (calls s) = 2 * 2"
    "\<forall>k < 2 * 2. fst (calls s ! k) = k
        \<and> fst (snd (calls s ! k)) = Some (threePayloads ! (k mod length threePayloads))"
    by blast
  have "fst (snd (calls s ! 3)) = Some (threePayloads ! (3 mod length threePayloads))"
    using s(3) [rule_format, of 3] by simp
  then have burst: "fst (snd (calls s ! 3)) = Some (threePayloads ! 0)"
    by (simp add: len3)
  have l4: "length (calls s) = 4" using s(2) by simp
  have st: "dispatched (runSteadyMode twoRequests threePayloads 0 twoRequestsRun) ! 1
       = (1, Some (threePayloads ! 1))"
    using steady by (simp add: len3)
  have l1: "(1 :: nat) < length (dispatched (runSteadyMode twoRequests threePayloads 0 twoRequestsRun))"
    using len by simp
  show ?thesis
    using many l1 st s(1) l4 burst by blast
qed

end
